theory Spec2Isabelle
  imports Main
begin

section \<open>Strings\<close>

text \<open>
  A Python or SQLite string is modelled as a \<open>string\<close>, each \<open>char\<close> read as a code
  point below 256.  \<open>py_strip\<close> is \<open>str.strip()\<close>, \<open>py_lower\<close> is \<open>str.lower()\<close>,
  \<open>py_replace\<close> is \<open>str.replace(old, new)\<close> for a non-empty \<open>old\<close> (the three
  placeholders of \<open>render_template\<close>).  \<open>sql_lower\<close> is SQLite's built-in \<open>lower()\<close>, which
  folds the letters A-Z only, and \<open>sql_like\<close> is SQLite's \<open>LIKE\<close> without \<open>ESCAPE\<close>: in the
  pattern \<open>%\<close> stands for any run of characters, \<open>_\<close> for any single character, and every
  other character matches itself up to the case of the letters A-Z.
\<close>

definition is_space :: "char \<Rightarrow> bool" where
  "is_space c = (let n = (of_char c :: nat) in
     (9 \<le> n \<and> n \<le> 13) \<or> (28 \<le> n \<and> n \<le> 32) \<or> n = 133 \<or> n = 160)"

definition py_strip :: "string \<Rightarrow> string" where
  "py_strip s = rev (dropWhile is_space (rev (dropWhile is_space s)))"

definition py_lower_char :: "char \<Rightarrow> char" where
  "py_lower_char c = (let n = (of_char c :: nat) in
     if (65 \<le> n \<and> n \<le> 90) \<or> (192 \<le> n \<and> n \<le> 222 \<and> n \<noteq> 215)
     then char_of (n + 32) else c)"

definition py_lower :: "string \<Rightarrow> string" where
  "py_lower s = map py_lower_char s"

definition sql_lower_char :: "char \<Rightarrow> char" where
  "sql_lower_char c = (let n = (of_char c :: nat) in
     if 65 \<le> n \<and> n \<le> 90 then char_of (n + 32) else c)"

definition sql_lower :: "string \<Rightarrow> string" where
  "sql_lower s = map sql_lower_char s"

fun sql_like :: "string \<Rightarrow> string \<Rightarrow> bool" where
  "sql_like [] s = (s = [])"
| "sql_like (p # ps) [] = (p = CHR ''%'' \<and> sql_like ps [])"
| "sql_like (p # ps) (c # cs) =
     (if p = CHR ''%'' then sql_like ps (c # cs) \<or> sql_like (p # ps) cs
      else (p = CHR ''_'' \<or> sql_lower_char p = sql_lower_char c) \<and> sql_like ps cs)"

function py_replace :: "string \<Rightarrow> string \<Rightarrow> string \<Rightarrow> string" where
  "py_replace old new [] = []"
| "py_replace old new (c # cs) =
     (if old \<noteq> [] \<and> take (length old) (c # cs) = old
      then new @ py_replace old new (drop (length old) (c # cs))
      else c # py_replace old new cs)"
  by pat_completeness auto
termination
  by (relation "measure (\<lambda>(old, new, s). length s)") (auto simp: neq_Nil_conv)

text \<open>
  What the specification asks of the selection by tag, in its own words: the
  comma-separated tag list contains the target tag as an exact, case-insensitive token.
  \<open>split_on\<close> is \<open>str.split(sep)\<close>.
\<close>

fun split_on :: "char \<Rightarrow> string \<Rightarrow> string list" where
  "split_on d [] = [[]]"
| "split_on d (c # cs) =
     (if c = d then [] # split_on d cs
      else (case split_on d cs of [] \<Rightarrow> [[c]] | t # ts \<Rightarrow> (c # t) # ts))"

definition exact_token_match :: "string \<Rightarrow> string \<Rightarrow> bool" where
  "exact_token_match tag tags = (py_lower tag \<in> set (map py_lower (split_on CHR '','' tags)))"

section \<open>Data model\<close>

text \<open>
  The three tables of \<open>init_db\<close>.  A timestamp is the number of seconds since the epoch
  that \<open>datetime('now')\<close> stands for (UTC, one-second resolution); \<open>date\<close> is its calendar
  day, as SQLite's \<open>date()\<close> gives it.  The columns \<open>consented\<close> and \<open>opted_out\<close> are SQLite
  integers.  The \<open>audit_log\<close> table is written by the HTTP handlers only and read by
  nothing; it is left out.
\<close>

type_synonym timestamp = nat

definition date :: "timestamp \<Rightarrow> nat" where
  "date t = t div 86400"

datatype status = Queued | Sending | Sent | Failed | Skipped

record contact =
  c_id :: int
  c_name :: string
  c_phone :: string
  c_consented :: int
  c_opted_out :: int
  c_tags :: string
  c_created_at :: timestamp

record campaign =
  g_id :: int
  g_name :: string
  g_message_template :: string
  g_target_tag :: string
  g_created_at :: timestamp
  g_started_at :: "timestamp option"
  g_completed_at :: "timestamp option"

record message =
  m_id :: int
  m_campaign_id :: int
  m_contact_id :: int
  m_to_phone :: string
  m_body :: string
  m_status :: status
  m_provider_id :: "string option"
  m_error :: "string option"
  m_created_at :: timestamp
  m_sent_at :: "timestamp option"

text \<open>
  The store is the committed database together with \<open>clock\<close>, the latest value of
  \<open>datetime('now')\<close> that a statement has read, and \<open>contact_seq\<close>, the row of
  \<open>sqlite_sequence\<close> for the table \<open>contacts\<close>: the largest id that table has handed out.
\<close>

record store =
  contacts :: "contact list"
  campaigns :: "campaign list"
  messages :: "message list"
  clock :: timestamp
  contact_seq :: int

definition init_db :: store where
  "init_db = \<lparr>contacts = [], campaigns = [], messages = [], clock = 0, contact_seq = 0\<rparr>"

text \<open>
  \<open>AUTOINCREMENT\<close>: the next id is one more than the largest id the table has handed
  out.  Rows of \<open>messages\<close> and \<open>campaigns\<close> come from plain \<open>INSERT\<close>s and are never deleted,
  so there it is one more than the largest id in the table (\<open>next_id\<close>), and 1 for an empty
  table.  An \<open>INSERT ... ON CONFLICT DO UPDATE\<close> into \<open>contacts\<close> draws a new id before it
  finds the conflict and records it in \<open>sqlite_sequence\<close> even when it then updates the old
  row, so there the ids handed out are counted in \<open>contact_seq\<close> (\<open>next_rowid\<close>).
\<close>

definition next_id :: "int list \<Rightarrow> int" where
  "next_id ids = fold max ids 0 + 1"

definition next_rowid :: "int \<Rightarrow> int list \<Rightarrow> int" where
  "next_rowid seq ids = max seq (fold max ids 0) + 1"

text \<open>
  The \<open>sqlite3\<close> module binds a Python \<open>int\<close> as a 64-bit signed \<open>INTEGER\<close> and raises
  \<open>OverflowError\<close> for any other.
\<close>

definition sqlite_int :: "int \<Rightarrow> bool" where
  "sqlite_int i = (- (2 ^ 63) \<le> i \<and> i < 2 ^ 63)"

section \<open>Configuration and environment\<close>

record config =
  send_per_second_env :: int
  max_daily_per_contact_env :: int
  public_base_url_env :: string

definition PUBLIC_BASE_URL :: "config \<Rightarrow> string" where
  "PUBLIC_BASE_URL cfg = rev (dropWhile (\<lambda>c. c = CHR ''/'') (rev (public_base_url_env cfg)))"

definition SEND_PER_SECOND :: "config \<Rightarrow> nat" where
  "SEND_PER_SECOND cfg = nat (max 1 (min 30 (send_per_second_env cfg)))"

definition MAX_DAILY_PER_CONTACT :: "config \<Rightarrow> nat" where
  "MAX_DAILY_PER_CONTACT cfg = nat (max 1 (min 20 (max_daily_per_contact_env cfg)))"

text \<open>
  What the program does not decide is read from an environment, indexed by the
  statement that asks:
  \<^item> \<open>db_fault env s = Some e\<close>: statement \<open>s\<close> of the dispatch tick raises a storage
    error with text \<open>e\<close> and changes nothing.  Outside the \<open>try\<close> block an \<open>UPDATE\<close> and the
    \<open>commit\<close> after it are one statement: whichever of the two raises, the exception leaves
    the tick and the connection is dropped with the \<open>UPDATE\<close> uncommitted.  Inside the \<open>try\<close>
    block the \<open>UPDATE\<close> to \<open>sent\<close> (\<open>MarkSent\<close>) and its \<open>commit\<close> (\<open>CommitSent\<close>) are two
    statements, because the \<open>except\<close> branch goes on with the same connection.
    \<open>MarkFailed\<close> is the \<open>UPDATE\<close> of the \<open>except\<close> branch with its \<open>commit\<close>;
  \<^item> \<open>elapsed env s\<close>: the seconds that have passed, when \<open>s\<close> reads \<open>datetime('now')\<close>,
    since the clock was last read;
  \<^item> \<open>send_sms env i phone body\<close>: the outcome of \<open>send_sms_africastalking(phone, body)\<close>
    called for message \<open>i\<close>: \<open>Inr\<close> the provider id, or \<open>Inl\<close> the text of the exception.
\<close>

datatype stmt =
    SelectQueued
  | SkipNoConsent int
  | CountSentToday int
  | SkipDailyCap int
  | MarkSending int
  | MarkSent int
  | CommitSent int
  | MarkFailed int
  | SelectStarted
  | CountLeft int
  | MarkCompleted int
  | MarkStarted int
  | InsertMessage int int
  | InsertCampaign
  | InsertContact string

record env =
  db_fault :: "stmt \<Rightarrow> string option"
  elapsed :: "stmt \<Rightarrow> nat"
  send_sms :: "int \<Rightarrow> string \<Rightarrow> string \<Rightarrow> string + string"

definition read_clock :: "env \<Rightarrow> stmt \<Rightarrow> store \<Rightarrow> store" where
  "read_clock env s w = w\<lparr>clock := clock w + elapsed env s\<rparr>"

definition exec :: "env \<Rightarrow> stmt \<Rightarrow> (store \<Rightarrow> store) \<Rightarrow> store \<Rightarrow> string option \<times> store" where
  "exec env s f w = (case db_fault env s of Some e \<Rightarrow> (Some e, w) | None \<Rightarrow> (None, f w))"

definition query :: "env \<Rightarrow> stmt \<Rightarrow> (store \<Rightarrow> 'a) \<Rightarrow> store \<Rightarrow> string + 'a" where
  "query env s q w = (case db_fault env s of Some e \<Rightarrow> Inl e | None \<Rightarrow> Inr (q w))"

section \<open>The dispatch tick\<close>

definition get_msg :: "store \<Rightarrow> int \<Rightarrow> message option" where
  "get_msg w i = find (\<lambda>m. m_id m = i) (messages w)"

definition get_campaign :: "store \<Rightarrow> int \<Rightarrow> campaign option" where
  "get_campaign w i = find (\<lambda>g. g_id g = i) (campaigns w)"

definition upd_msg :: "int \<Rightarrow> (message \<Rightarrow> message) \<Rightarrow> store \<Rightarrow> store" where
  "upd_msg i f w = w\<lparr>messages := map (\<lambda>m. if m_id m = i then f m else m) (messages w)\<rparr>"

definition set_skipped :: "int \<Rightarrow> string \<Rightarrow> store \<Rightarrow> store" where
  "set_skipped i reason = upd_msg i (\<lambda>m. m\<lparr>m_status := Skipped, m_error := Some reason\<rparr>)"

definition set_sending :: "int \<Rightarrow> store \<Rightarrow> store" where
  "set_sending i = upd_msg i (\<lambda>m. m\<lparr>m_status := Sending\<rparr>)"

definition set_sent :: "int \<Rightarrow> string \<Rightarrow> store \<Rightarrow> store" where
  "set_sent i provider_id w =
     upd_msg i (\<lambda>m. m\<lparr>m_status := Sent, m_provider_id := Some provider_id,
                       m_sent_at := Some (clock w)\<rparr>) w"

definition set_failed :: "int \<Rightarrow> string \<Rightarrow> store \<Rightarrow> store" where
  "set_failed i e = upd_msg i (\<lambda>m. m\<lparr>m_status := Failed, m_error := Some e\<rparr>)"

definition sent_on :: "store \<Rightarrow> int \<Rightarrow> nat \<Rightarrow> nat" where
  "sent_on w contact_id day =
     length (filter (\<lambda>m. m_contact_id m = contact_id \<and> m_status m = Sent
                        \<and> map_option date (m_sent_at m) = Some day) (messages w))"

definition count_sent_today :: "store \<Rightarrow> int \<Rightarrow> nat" where
  "count_sent_today w contact_id = sent_on w contact_id (date (clock w))"

text \<open>
  A row of the batch: the message with the two flags of its contact, as the \<open>JOIN\<close> read
  them when the batch was selected.  Rows with equal \<open>created_at\<close> keep the order of the
  table (SQL leaves their order open).
\<close>

record row =
  r_msg :: message
  r_consented :: int
  r_opted_out :: int

definition joined :: "store \<Rightarrow> row list" where
  "joined w =
     concat (map (\<lambda>m. map (\<lambda>c. \<lparr>r_msg = m, r_consented = c_consented c,
                                  r_opted_out = c_opted_out c\<rparr>)
                          (filter (\<lambda>c. c_id c = m_contact_id m) (contacts w)))
                 (filter (\<lambda>m. m_status m = Queued) (messages w)))"

definition select_queued :: "nat \<Rightarrow> store \<Rightarrow> row list" where
  "select_queued n w = take n (sort_key (\<lambda>r. m_created_at (r_msg r)) (joined w))"

text \<open>
  The trace of a tick: \<open>Visit i\<close> when the loop body starts on message \<open>i\<close>, \<open>Send i phone
  body\<close> when the provider is called for it.

  In the \<open>try\<close> block the store \<open>w3\<close> is what the connection of the tick sees when the
  exception \<open>e\<close> is caught: the committed store \<open>w2\<close>, or, when it was the \<open>commit\<close> that raised,
  \<open>w2\<close> with the \<open>UPDATE\<close> to \<open>sent\<close> still pending in the open transaction.  The \<open>UPDATE\<close> to
  \<open>failed\<close> of the \<open>except\<close> branch is applied to \<open>w3\<close> and its \<open>commit\<close> commits the pending
  \<open>UPDATE\<close> with it; when the \<open>except\<close> branch raises, the exception leaves the tick and what
  was pending is lost: the database is \<open>w2\<close>, later by the time that has passed.
\<close>

datatype event = Visit int | Send int string string

definition process_row ::
  "config \<Rightarrow> env \<Rightarrow> row \<Rightarrow> store \<Rightarrow> string option \<times> event list \<times> store" where
  "process_row cfg env r w =
     (let m = r_msg r; i = m_id m in
      if r_consented r \<noteq> 1 \<or> r_opted_out r = 1 then
        (case exec env (SkipNoConsent i) (set_skipped i ''no consent or opted out'') w of
           (x, w1) \<Rightarrow> (x, [Visit i], w1))
      else
        (case query env (CountSentToday i)
                (\<lambda>w. count_sent_today w (m_contact_id m)) (read_clock env (CountSentToday i) w) of
           Inl e \<Rightarrow> (Some e, [Visit i], w)
         | Inr n \<Rightarrow>
            (let w1 = read_clock env (CountSentToday i) w in
             if n \<ge> MAX_DAILY_PER_CONTACT cfg then
               (case exec env (SkipDailyCap i) (set_skipped i ''daily cap reached'') w1 of
                  (x, w2) \<Rightarrow> (x, [Visit i], w2))
             else
               (case exec env (MarkSending i) (set_sending i) w1 of
                  (Some e, w2) \<Rightarrow> (Some e, [Visit i], w2)
                | (None, w2) \<Rightarrow>
                   (let tr = [Visit i, Send i (m_to_phone m) (m_body m)] in
                    case (case send_sms env i (m_to_phone m) (m_body m) of
                            Inl e \<Rightarrow> (Some e, w2)
                          | Inr provider_id \<Rightarrow>
                              (case exec env (MarkSent i)
                                      (\<lambda>w. set_sent i provider_id (read_clock env (MarkSent i) w)) w2 of
                                 (Some e, w3) \<Rightarrow> (Some e, w3)
                               | (None, w3) \<Rightarrow> (db_fault env (CommitSent i), w3))) of
                      (None, w3) \<Rightarrow> (None, tr, w3)
                    | (Some e, w3) \<Rightarrow>
                        (case exec env (MarkFailed i) (set_failed i e) w3 of
                           (None, w4) \<Rightarrow> (None, tr, w4)
                         | (Some e', w4) \<Rightarrow> (Some e', tr, w2\<lparr>clock := clock w3\<rparr>)))))))"

fun dispatch ::
  "config \<Rightarrow> env \<Rightarrow> row list \<Rightarrow> store \<Rightarrow> string option \<times> event list \<times> store" where
  "dispatch cfg env [] w = (None, [], w)"
| "dispatch cfg env (r # rows) w =
     (case process_row cfg env r w of
        (Some e, tr, w1) \<Rightarrow> (Some e, tr, w1)
      | (None, tr, w1) \<Rightarrow>
          (case dispatch cfg env rows w1 of (x, tr', w2) \<Rightarrow> (x, tr @ tr', w2)))"

definition started :: "store \<Rightarrow> int list" where
  "started w =
     map g_id (filter (\<lambda>g. g_started_at g \<noteq> None \<and> g_completed_at g = None) (campaigns w))"

definition count_left :: "store \<Rightarrow> int \<Rightarrow> nat" where
  "count_left w campaign_id =
     length (filter (\<lambda>m. m_campaign_id m = campaign_id
                        \<and> (m_status m = Queued \<or> m_status m = Sending)) (messages w))"

definition set_completed :: "int \<Rightarrow> store \<Rightarrow> store" where
  "set_completed i w =
     w\<lparr>campaigns := map (\<lambda>g. if g_id g = i then g\<lparr>g_completed_at := Some (clock w)\<rparr> else g)
                       (campaigns w)\<rparr>"

fun complete_campaigns :: "env \<Rightarrow> int list \<Rightarrow> store \<Rightarrow> string option \<times> store" where
  "complete_campaigns env [] w = (None, w)"
| "complete_campaigns env (c # cs) w =
     (case query env (CountLeft c) (\<lambda>w. count_left w c) w of
        Inl e \<Rightarrow> (Some e, w)
      | Inr left \<Rightarrow>
          if left = 0 then
            (case exec env (MarkCompleted c)
                    (\<lambda>w. set_completed c (read_clock env (MarkCompleted c) w)) w of
               (Some e, w1) \<Rightarrow> (Some e, w1)
             | (None, w1) \<Rightarrow> complete_campaigns env cs w1)
          else complete_campaigns env cs w)"

definition process_queue_tick ::
  "config \<Rightarrow> env \<Rightarrow> store \<Rightarrow> string option \<times> event list \<times> store" where
  "process_queue_tick cfg env w =
     (case query env SelectQueued (select_queued (SEND_PER_SECOND cfg)) w of
        Inl e \<Rightarrow> (Some e, [], w)
      | Inr rows \<Rightarrow>
          (case dispatch cfg env rows w of
             (Some e, tr, w1) \<Rightarrow> (Some e, tr, w1)
           | (None, tr, w1) \<Rightarrow>
               (case query env SelectStarted started w1 of
                  Inl e \<Rightarrow> (Some e, tr, w1)
                | Inr cs \<Rightarrow>
                    (case complete_campaigns env cs w1 of (x, w2) \<Rightarrow> (x, tr, w2)))))"

text \<open>One round of \<open>worker_loop\<close>: the tick, with whatever it raises caught and printed.\<close>

definition worker_round :: "config \<Rightarrow> env \<Rightarrow> store \<Rightarrow> store" where
  "worker_round cfg env w = snd (snd (process_queue_tick cfg env w))"

section \<open>Campaign activation\<close>

definition render_template :: "string \<Rightarrow> contact \<Rightarrow> string" where
  "render_template tpl c =
     py_replace ''{{tags}}'' (c_tags c)
       (py_replace ''{{phone}}'' (c_phone c)
          (py_replace ''{{name}}'' (c_name c) tpl))"

definition recipients :: "store \<Rightarrow> campaign \<Rightarrow> contact list" where
  "recipients w camp =
     (let tag = py_strip (g_target_tag camp) in
      if tag \<noteq> [] then
        filter (\<lambda>c. c_consented c = 1 \<and> c_opted_out c = 0
                  \<and> sql_like (''%,'' @ py_lower tag @ '',%'') ('','' @ sql_lower (c_tags c) @ '',''))
          (contacts w)
      else filter (\<lambda>c. c_consented c = 1 \<and> c_opted_out c = 0) (contacts w))"

definition set_started :: "int \<Rightarrow> store \<Rightarrow> store" where
  "set_started i w =
     w\<lparr>campaigns := map (\<lambda>g. if g_id g = i then g\<lparr>g_started_at := Some (clock w)\<rparr> else g)
                       (campaigns w)\<rparr>"

definition message_body :: "config \<Rightarrow> campaign \<Rightarrow> contact \<Rightarrow> string" where
  "message_body cfg camp c =
     py_strip (render_template (g_message_template camp) c)
       @ CHR 0x0A # ''Opt out: '' @ PUBLIC_BASE_URL cfg @ ''/u/'' @ c_phone c"

definition enqueue :: "config \<Rightarrow> env \<Rightarrow> int \<Rightarrow> campaign \<Rightarrow> contact \<Rightarrow> store \<Rightarrow> store" where
  "enqueue cfg env campaign_id camp c w =
     (let w1 = read_clock env (InsertMessage campaign_id (c_id c)) w in
      w1\<lparr>messages := messages w1 @
           [\<lparr>m_id = next_id (map m_id (messages w1)), m_campaign_id = campaign_id,
             m_contact_id = c_id c, m_to_phone = c_phone c, m_body = message_body cfg camp c,
             m_status = Queued, m_provider_id = None, m_error = None,
             m_created_at = clock w1, m_sent_at = None\<rparr>]\<rparr>)"

datatype error = HTTPException nat string | OverflowError string

text \<open>
  \<open>campaigns_start\<close> returns the number of recipients (what it writes to the audit log)
  or the exception it raises, and the store it leaves.  The path parameter is a Python
  \<open>int\<close> of any size, and the first \<open>SELECT\<close> binds it.
\<close>

definition campaigns_start ::
  "config \<Rightarrow> env \<Rightarrow> int \<Rightarrow> store \<Rightarrow> (error + nat) \<times> store" where
  "campaigns_start cfg env campaign_id w =
     (if \<not> sqlite_int campaign_id then
        (Inl (OverflowError ''Python int too large to convert to SQLite INTEGER''), w)
      else
        (case get_campaign w campaign_id of
           None \<Rightarrow> (Inl (HTTPException 404 ''Campaign not found''), w)
         | Some camp \<Rightarrow>
             (let rs = recipients w camp;
                  w1 = set_started campaign_id (read_clock env (MarkStarted campaign_id) w);
                  w2 = fold (enqueue cfg env campaign_id camp) rs w1
              in (Inr (length rs), w2))))"

section \<open>The other handlers that write the store\<close>

definition campaigns_create :: "env \<Rightarrow> string \<Rightarrow> string \<Rightarrow> string \<Rightarrow> store \<Rightarrow> store" where
  "campaigns_create env name message_template target_tag w =
     (let w1 = read_clock env InsertCampaign w in
      w1\<lparr>campaigns := campaigns w1 @
           [\<lparr>g_id = next_id (map g_id (campaigns w1)), g_name = py_strip name,
             g_message_template = py_strip message_template,
             g_target_tag = py_strip target_tag, g_created_at = clock w1,
             g_started_at = None, g_completed_at = None\<rparr>]\<rparr>)"

text \<open>
  \<open>INSERT INTO contacts ... ON CONFLICT(phone) DO UPDATE\<close>: a contact with this phone keeps
  its id and its opt-out and takes the new name and tags and the larger consent flag.  In
  both cases the statement uses up the next id of the table.
\<close>

definition upsert_contact :: "env \<Rightarrow> string \<Rightarrow> string \<Rightarrow> string \<Rightarrow> int \<Rightarrow> store \<Rightarrow> store" where
  "upsert_contact env name phone tags consented w =
     (let new_id = next_rowid (contact_seq w) (map c_id (contacts w)) in
      if list_ex (\<lambda>c. c_phone c = phone) (contacts w) then
        w\<lparr>contacts := map (\<lambda>c. if c_phone c = phone
                                then c\<lparr>c_name := name, c_tags := tags,
                                       c_consented := max (c_consented c) consented\<rparr>
                                else c) (contacts w),
          contact_seq := new_id\<rparr>
      else
        (let w1 = read_clock env (InsertContact phone) w in
         w1\<lparr>contacts := contacts w1 @
              [\<lparr>c_id = new_id, c_name = name, c_phone = phone,
                c_consented = consented, c_opted_out = 0, c_tags = tags,
                c_created_at = clock w1\<rparr>],
            contact_seq := new_id\<rparr>))"

definition contacts_add ::
  "env \<Rightarrow> string \<Rightarrow> string \<Rightarrow> string \<Rightarrow> string option \<Rightarrow> store \<Rightarrow> store" where
  "contacts_add env name phone tags consented w =
     upsert_contact env (py_strip name) (py_strip phone) (py_strip tags)
       (case consented of None \<Rightarrow> 0 | Some s \<Rightarrow> if s = [] then 0 else 1) w"

text \<open>A row of the uploaded CSV file, as \<open>csv.DictReader\<close> hands it over.\<close>

record csv_row =
  csv_phone :: "string option"
  csv_name :: "string option"
  csv_consented :: "string option"
  csv_tags :: "string option"

definition or_empty :: "string option \<Rightarrow> string" where
  "or_empty x = (case x of None \<Rightarrow> [] | Some s \<Rightarrow> s)"

definition import_row :: "env \<Rightarrow> csv_row \<Rightarrow> store \<Rightarrow> store" where
  "import_row env r w =
     (let phone = py_strip (or_empty (csv_phone r)) in
      if phone = [] then w
      else
        (let c = py_lower (py_strip (or_empty (csv_consented r))) in
         upsert_contact env (py_strip (or_empty (csv_name r))) phone
           (py_strip (or_empty (csv_tags r)))
           (if c \<in> set [''1'', ''true'', ''yes'', ''y''] then 1 else 0) w))"

definition contacts_import_csv :: "env \<Rightarrow> csv_row list \<Rightarrow> store \<Rightarrow> store" where
  "contacts_import_csv env rows w = fold (import_row env) rows w"

text \<open>
  \<open>contact_optout\<close> binds its path parameter too; when that raises, nothing is written.
\<close>

definition contact_optout :: "int \<Rightarrow> store \<Rightarrow> store" where
  "contact_optout contact_id w =
     (if \<not> sqlite_int contact_id then w
      else
        w\<lparr>contacts := map (\<lambda>c. if c_id c = contact_id then c\<lparr>c_opted_out := 1\<rparr> else c)
                         (contacts w)\<rparr>)"

definition unsubscribe :: "string \<Rightarrow> store \<Rightarrow> store" where
  "unsubscribe phone w =
     w\<lparr>contacts := map (\<lambda>c. if c_phone c = phone then c\<lparr>c_opted_out := 1\<rparr> else c)
                      (contacts w)\<rparr>"

text \<open>
  \<open>startup\<close> runs \<open>init_db\<close>, whose \<open>CREATE TABLE IF NOT EXISTS\<close> leaves the rows of an
  existing database as they are, and starts the worker loop.
\<close>

definition startup :: "store \<Rightarrow> store" where
  "startup w = w"

section \<open>Runs of the system\<close>

text \<open>
  Every operation of the program that writes the store, and what a sequence of them
  makes of a store.
\<close>

datatype op =
    Tick env
  | Start env int
  | Create env string string string
  | Add env string string string "string option"
  | Import env "csv_row list"
  | OptOut int
  | Unsubscribe string
  | Startup

fun apply_op :: "config \<Rightarrow> op \<Rightarrow> store \<Rightarrow> store" where
  "apply_op cfg (Tick env) w = worker_round cfg env w"
| "apply_op cfg (Start env i) w = snd (campaigns_start cfg env i w)"
| "apply_op cfg (Create env name tpl tag) w = campaigns_create env name tpl tag w"
| "apply_op cfg (Add env name phone tags consented) w = contacts_add env name phone tags consented w"
| "apply_op cfg (Import env rows) w = contacts_import_csv env rows w"
| "apply_op cfg (OptOut i) w = contact_optout i w"
| "apply_op cfg (Unsubscribe phone) w = unsubscribe phone w"
| "apply_op cfg Startup w = startup w"

definition run :: "config \<Rightarrow> op list \<Rightarrow> store \<Rightarrow> store" where
  "run cfg ops w = fold (apply_op cfg) ops w"

section \<open>Handlers that commit while a tick runs\<close>

text \<open>
  \<open>process_queue_tick\<close> does not yield between its first \<open>SELECT\<close> and its last \<open>commit\<close>,
  but the handlers are plain \<open>def\<close> functions, which the framework runs in worker threads:
  each opens a connection of its own and commits on it, and so the transaction of a handler
  can commit between any two statements of a tick.  A schedule says which operations of
  handlers commit just before each statement of the tick executes: those of \<open>MarkSent i\<close>
  commit while the provider is called for message \<open>i\<close>, those of \<open>MarkFailed i\<close> before the
  \<open>UPDATE\<close> of the \<open>except\<close> branch.  While the \<open>UPDATE\<close> to \<open>sent\<close> is pending the tick holds the
  write lock of the database, and no handler commits before the tick has committed or has
  given up.  The rows of the batch stay what the first \<open>SELECT\<close> returned.
\<close>

fun is_handler :: "op \<Rightarrow> bool" where
  "is_handler (Tick env) = False"
| "is_handler Startup = False"
| "is_handler other = True"

type_synonym schedule = "stmt \<Rightarrow> op list"

definition interleave :: "config \<Rightarrow> schedule \<Rightarrow> stmt \<Rightarrow> store \<Rightarrow> store" where
  "interleave cfg sched s w = run cfg (sched s) w"

definition process_row_conc ::
  "config \<Rightarrow> schedule \<Rightarrow> env \<Rightarrow> row \<Rightarrow> store \<Rightarrow> string option \<times> event list \<times> store" where
  "process_row_conc cfg sched env r w =
     (let m = r_msg r; i = m_id m in
      if r_consented r \<noteq> 1 \<or> r_opted_out r = 1 then
        (case exec env (SkipNoConsent i) (set_skipped i ''no consent or opted out'')
                (interleave cfg sched (SkipNoConsent i) w) of
           (x, w1) \<Rightarrow> (x, [Visit i], w1))
      else
        (let w0 = interleave cfg sched (CountSentToday i) w in
         case query env (CountSentToday i)
                (\<lambda>w. count_sent_today w (m_contact_id m)) (read_clock env (CountSentToday i) w0) of
           Inl e \<Rightarrow> (Some e, [Visit i], w0)
         | Inr n \<Rightarrow>
            (let w1 = read_clock env (CountSentToday i) w0 in
             if n \<ge> MAX_DAILY_PER_CONTACT cfg then
               (case exec env (SkipDailyCap i) (set_skipped i ''daily cap reached'')
                       (interleave cfg sched (SkipDailyCap i) w1) of
                  (x, w2) \<Rightarrow> (x, [Visit i], w2))
             else
               (case exec env (MarkSending i) (set_sending i)
                       (interleave cfg sched (MarkSending i) w1) of
                  (Some e, w2) \<Rightarrow> (Some e, [Visit i], w2)
                | (None, w2) \<Rightarrow>
                   (let tr = [Visit i, Send i (m_to_phone m) (m_body m)];
                        failed = (\<lambda>e v.
                          case exec env (MarkFailed i) (set_failed i e)
                                 (interleave cfg sched (MarkFailed i) v) of
                            (x, w4) \<Rightarrow> (x, tr, w4)) in
                    case send_sms env i (m_to_phone m) (m_body m) of
                      Inl e \<Rightarrow> failed e w2
                    | Inr provider_id \<Rightarrow>
                       (let w2' = interleave cfg sched (MarkSent i) w2 in
                        case db_fault env (MarkSent i) of
                          Some e \<Rightarrow> failed e w2'
                        | None \<Rightarrow>
                           (let w3 = set_sent i provider_id (read_clock env (MarkSent i) w2') in
                            case db_fault env (CommitSent i) of
                              None \<Rightarrow> (None, tr, w3)
                            | Some e \<Rightarrow>
                               (case db_fault env (MarkFailed i) of
                                  None \<Rightarrow> (None, tr, set_failed i e w3)
                                | Some e' \<Rightarrow> (Some e', tr, w2'\<lparr>clock := clock w3\<rparr>)))))))))"

fun dispatch_conc ::
  "config \<Rightarrow> schedule \<Rightarrow> env \<Rightarrow> row list \<Rightarrow> store \<Rightarrow> string option \<times> event list \<times> store" where
  "dispatch_conc cfg sched env [] w = (None, [], w)"
| "dispatch_conc cfg sched env (r # rows) w =
     (case process_row_conc cfg sched env r w of
        (Some e, tr, w1) \<Rightarrow> (Some e, tr, w1)
      | (None, tr, w1) \<Rightarrow>
          (case dispatch_conc cfg sched env rows w1 of (x, tr', w2) \<Rightarrow> (x, tr @ tr', w2)))"

fun complete_campaigns_conc ::
  "config \<Rightarrow> schedule \<Rightarrow> env \<Rightarrow> int list \<Rightarrow> store \<Rightarrow> string option \<times> store" where
  "complete_campaigns_conc cfg sched env [] w = (None, w)"
| "complete_campaigns_conc cfg sched env (c # cs) w =
     (let w0 = interleave cfg sched (CountLeft c) w in
      case query env (CountLeft c) (\<lambda>w. count_left w c) w0 of
        Inl e \<Rightarrow> (Some e, w0)
      | Inr left \<Rightarrow>
          if left = 0 then
            (case exec env (MarkCompleted c)
                    (\<lambda>w. set_completed c (read_clock env (MarkCompleted c) w))
                    (interleave cfg sched (MarkCompleted c) w0) of
               (Some e, w1) \<Rightarrow> (Some e, w1)
             | (None, w1) \<Rightarrow> complete_campaigns_conc cfg sched env cs w1)
          else complete_campaigns_conc cfg sched env cs w0)"

text \<open>
  The tick with the handlers of a schedule committing while it runs, from the store that
  its first \<open>SELECT\<close> reads.
\<close>

definition process_queue_tick_conc ::
  "config \<Rightarrow> schedule \<Rightarrow> env \<Rightarrow> store \<Rightarrow> string option \<times> event list \<times> store" where
  "process_queue_tick_conc cfg sched env w =
     (case query env SelectQueued (select_queued (SEND_PER_SECOND cfg)) w of
        Inl e \<Rightarrow> (Some e, [], w)
      | Inr rows \<Rightarrow>
          (case dispatch_conc cfg sched env rows w of
             (Some e, tr, w1) \<Rightarrow> (Some e, tr, w1)
           | (None, tr, w1) \<Rightarrow>
               (let w1' = interleave cfg sched SelectStarted w1 in
                case query env SelectStarted started w1' of
                  Inl e \<Rightarrow> (Some e, tr, w1')
                | Inr cs \<Rightarrow>
                    (case complete_campaigns_conc cfg sched env cs w1' of
                       (x, w2) \<Rightarrow> (x, tr, w2)))))"

section \<open>Vocabulary of the properties\<close>

definition primary_keys :: "store \<Rightarrow> bool" where
  "primary_keys w = (distinct (map m_id (messages w)) \<and> distinct (map c_id (contacts w))
     \<and> distinct (map g_id (campaigns w)))"

definition static_eq :: "message \<Rightarrow> message \<Rightarrow> bool" where
  "static_eq m m' = (m_id m' = m_id m \<and> m_campaign_id m' = m_campaign_id m
     \<and> m_contact_id m' = m_contact_id m \<and> m_to_phone m' = m_to_phone m
     \<and> m_body m' = m_body m \<and> m_created_at m' = m_created_at m)"

definition frame :: "int set \<Rightarrow> store \<Rightarrow> store \<Rightarrow> bool" where
  "frame S w w' = (contacts w' = contacts w \<and> clock w \<le> clock w'
     \<and> list_all2 (\<lambda>m m'. static_eq m m' \<and> (m_id m \<notin> S \<longrightarrow> m' = m)) (messages w) (messages w'))"

definition row_ids :: "row list \<Rightarrow> int list" where
  "row_ids rows = map (\<lambda>r. m_id (r_msg r)) rows"

fun ev_id :: "event \<Rightarrow> int" where
  "ev_id (Visit i) = i"
| "ev_id (Send i phone body) = i"

definition visits :: "event list \<Rightarrow> int list" where
  "visits tr = concat (map (\<lambda>e. case e of Visit i \<Rightarrow> [i] | Send i p b \<Rightarrow> []) tr)"

definition queued_for :: "config \<Rightarrow> int \<Rightarrow> campaign \<Rightarrow> contact \<Rightarrow> message \<Rightarrow> bool" where
  "queued_for cfg i camp c m = (m_status m = Queued \<and> m_campaign_id m = i \<and> m_contact_id m = c_id c
     \<and> m_to_phone m = c_phone c \<and> m_body m = message_body cfg camp c
     \<and> m_provider_id m = None \<and> m_error m = None \<and> m_sent_at m = None)"

definition left_queued :: "store \<Rightarrow> store \<Rightarrow> nat" where
  "left_queued w w' =
     length (filter (\<lambda>(m, m'). m_status m = Queued \<and> m_status m' \<noteq> Queued)
               (zip (messages w) (messages w')))"

definition flags_ok :: "store \<Rightarrow> bool" where
  "flags_ok w = (\<forall>c \<in> set (contacts w).
     (c_consented c = 0 \<or> c_consented c = 1) \<and> (c_opted_out c = 0 \<or> c_opted_out c = 1))"

definition record_ok :: "message \<Rightarrow> bool" where
  "record_ok m = (case m_status m of
       Queued \<Rightarrow> m_provider_id m = None \<and> m_error m = None
     | Sending \<Rightarrow> m_provider_id m = None \<and> m_error m = None
     | Sent \<Rightarrow> m_provider_id m \<noteq> None \<and> m_error m = None
     | Failed \<Rightarrow> m_provider_id m = None \<and> m_error m \<noteq> None
     | Skipped \<Rightarrow> m_provider_id m = None \<and> m_error m \<noteq> None)"

definition records_ok :: "store \<Rightarrow> bool" where
  "records_ok w = list_all record_ok (messages w)"

definition exactly_one :: "message \<Rightarrow> bool" where
  "exactly_one m = ((m_provider_id m \<noteq> None) \<noteq> (m_error m \<noteq> None))"

definition no_future :: "store \<Rightarrow> bool" where
  "no_future w = (\<forall>m \<in> set (messages w). \<forall>t. m_sent_at m = Some t \<longrightarrow> t \<le> clock w)"

definition cap_ok :: "config \<Rightarrow> store \<Rightarrow> bool" where
  "cap_ok cfg w = (\<forall>contact_id day. sent_on w contact_id day \<le> MAX_DAILY_PER_CONTACT cfg)"

definition rows_match :: "row list \<Rightarrow> store \<Rightarrow> bool" where
  "rows_match rows w = (\<forall>r \<in> set rows. \<forall>m \<in> set (messages w).
     m_id m = m_id (r_msg r) \<longrightarrow> m_contact_id m = m_contact_id (r_msg r))"

definition storage_ok :: "env \<Rightarrow> bool" where
  "storage_ok env = (db_fault env SelectQueued = None \<and>
     (\<forall>i. db_fault env (SkipNoConsent i) = None \<and> db_fault env (CountSentToday i) = None
        \<and> db_fault env (SkipDailyCap i) = None \<and> db_fault env (MarkSending i) = None
        \<and> db_fault env (MarkFailed i) = None))"

text \<open>
  \<open>keeps S w w'\<close>: every message of \<open>w\<close> is a message of \<open>w'\<close> with the same static fields,
  unchanged when its id is outside \<open>S\<close>, and every \<open>Sent\<close> message of \<open>w'\<close> with an id outside
  \<open>S\<close> is that message of \<open>w\<close>.
\<close>

definition keeps :: "int set \<Rightarrow> store \<Rightarrow> store \<Rightarrow> bool" where
  "keeps S w w' = (\<forall>j.
     (\<forall>m. get_msg w j = Some m \<longrightarrow>
        (\<exists>m'. get_msg w' j = Some m' \<and> static_eq m m' \<and> (j \<notin> S \<longrightarrow> m' = m)))
     \<and> (\<forall>m'. get_msg w' j = Some m' \<and> m_status m' = Sent \<and> j \<notin> S \<longrightarrow>
          get_msg w j = Some m'))"

section \<open>Example stores\<close>

definition ex_cfg :: config where
  "ex_cfg = \<lparr>send_per_second_env = 2, max_daily_per_contact_env = 1,
             public_base_url_env = ''http://h/''\<rparr>"

definition ex_env :: env where
  "ex_env = \<lparr>db_fault = (\<lambda>s. None), elapsed = (\<lambda>s. 1),
             send_sms = (\<lambda>i phone body. Inr ''at1'')\<rparr>"

definition ex_al :: contact where
  "ex_al = \<lparr>c_id = 1, c_name = ''Al'', c_phone = ''+1'', c_consented = 1, c_opted_out = 0,
            c_tags = ''vip,gold'', c_created_at = 1\<rparr>"

definition ex_bo :: contact where
  "ex_bo = \<lparr>c_id = 2, c_name = ''Bo'', c_phone = ''+2'', c_consented = 1, c_opted_out = 0,
            c_tags = ''gold'', c_created_at = 2\<rparr>"

definition ex_camp :: campaign where
  "ex_camp = \<lparr>g_id = 1, g_name = ''c'', g_message_template = ''Hi {{name}}'',
              g_target_tag = ''vip'', g_created_at = 3, g_started_at = None,
              g_completed_at = None\<rparr>"

definition ex_store :: store where
  "ex_store = \<lparr>contacts = [ex_al, ex_bo], campaigns = [ex_camp], messages = [], clock = 10,
                contact_seq = 2\<rparr>"

text \<open>
  A queue of four messages, one message stuck in \<open>Sending\<close> and one sent earlier the same
  day; Cy has not consented.  The provider of \<open>ex_env2\<close> rejects message 2.
\<close>

definition ex_cy :: contact where
  "ex_cy = \<lparr>c_id = 3, c_name = ''Cy'', c_phone = ''+3'', c_consented = 0, c_opted_out = 0,
            c_tags = '''', c_created_at = 3\<rparr>"

definition ex_msg :: "int \<Rightarrow> int \<Rightarrow> timestamp \<Rightarrow> status \<Rightarrow> message" where
  "ex_msg i contact_id created st =
     \<lparr>m_id = i, m_campaign_id = 1, m_contact_id = contact_id, m_to_phone = ''+'',
      m_body = ''Hi'', m_status = st, m_provider_id = None, m_error = None,
      m_created_at = created, m_sent_at = None\<rparr>"

definition ex_queue :: store where
  "ex_queue =
     \<lparr>contacts = [ex_al, ex_bo, ex_cy],
      campaigns = [ex_camp\<lparr>g_started_at := Some 4\<rparr>],
      messages = [ex_msg 1 1 5 Queued, ex_msg 2 2 4 Queued, ex_msg 3 1 6 Queued,
                  ex_msg 4 3 7 Queued, ex_msg 5 2 1 Sending,
                  (ex_msg 6 3 2 Sent)\<lparr>m_provider_id := Some ''at0'', m_sent_at := Some 8\<rparr>],
      clock = 10, contact_seq = 3\<rparr>"

definition ex_cfg5 :: config where
  "ex_cfg5 = ex_cfg\<lparr>send_per_second_env := 5\<rparr>"

definition ex_env2 :: env where
  "ex_env2 = ex_env\<lparr>send_sms := (\<lambda>i phone body. if i = 2 then Inl ''boom'' else Inr ''at1'')\<rparr>"

text \<open>What a tick makes of \<open>ex_queue\<close>: with a batch of two, and with a batch of five.\<close>

definition ex_queue_after :: store where
  "ex_queue_after = ex_queue
     \<lparr>messages :=
        [(ex_msg 1 1 5 Sent)\<lparr>m_provider_id := Some ''at1'', m_sent_at := Some 14\<rparr>,
         (ex_msg 2 2 4 Sent)\<lparr>m_provider_id := Some ''at1'', m_sent_at := Some 12\<rparr>,
         ex_msg 3 1 6 Queued, ex_msg 4 3 7 Queued, ex_msg 5 2 1 Sending,
         (ex_msg 6 3 2 Sent)\<lparr>m_provider_id := Some ''at0'', m_sent_at := Some 8\<rparr>],
      clock := 14\<rparr>"

definition ex_queue_after5 :: store where
  "ex_queue_after5 = ex_queue
     \<lparr>messages :=
        [(ex_msg 1 1 5 Sent)\<lparr>m_provider_id := Some ''at1'', m_sent_at := Some 13\<rparr>,
         (ex_msg 2 2 4 Failed)\<lparr>m_error := Some ''boom''\<rparr>,
         (ex_msg 3 1 6 Skipped)\<lparr>m_error := Some ''daily cap reached''\<rparr>,
         (ex_msg 4 3 7 Skipped)\<lparr>m_error := Some ''no consent or opted out''\<rparr>,
         ex_msg 5 2 1 Sending,
         (ex_msg 6 3 2 Sent)\<lparr>m_provider_id := Some ''at0'', m_sent_at := Some 8\<rparr>],
      clock := 14\<rparr>"

text \<open>
  The rows of the batch of five, the store that the first two of them leave, and a
  store one second after midnight with a message sent two seconds earlier.
\<close>

definition ex_row :: "int \<Rightarrow> int \<Rightarrow> timestamp \<Rightarrow> int \<Rightarrow> row" where
  "ex_row i contact_id created consented =
     \<lparr>r_msg = ex_msg i contact_id created Queued, r_consented = consented, r_opted_out = 0\<rparr>"

definition ex_queue_mid5 :: store where
  "ex_queue_mid5 = ex_queue
     \<lparr>messages :=
        [(ex_msg 1 1 5 Sent)\<lparr>m_provider_id := Some ''at1'', m_sent_at := Some 13\<rparr>,
         (ex_msg 2 2 4 Failed)\<lparr>m_error := Some ''boom''\<rparr>,
         ex_msg 3 1 6 Queued, ex_msg 4 3 7 Queued, ex_msg 5 2 1 Sending,
         (ex_msg 6 3 2 Sent)\<lparr>m_provider_id := Some ''at0'', m_sent_at := Some 8\<rparr>],
      clock := 13\<rparr>"

definition ex_midnight :: store where
  "ex_midnight =
     \<lparr>contacts = [ex_al], campaigns = [],
      messages = [(ex_msg 1 1 5 Sent)\<lparr>m_provider_id := Some ''at1'', m_sent_at := Some 86399\<rparr>],
      clock = 86401, contact_seq = 1\<rparr>"

text \<open>
  A store with one started campaign whose last message is queued, and a campaign that
  was never started; and what a tick makes of it.
\<close>

definition ex_closing :: store where
  "ex_closing =
     \<lparr>contacts = [ex_al],
      campaigns = [ex_camp\<lparr>g_started_at := Some 4\<rparr>, ex_camp\<lparr>g_id := 2\<rparr>],
      messages = [ex_msg 1 1 5 Queued], clock = 10, contact_seq = 1\<rparr>"

definition ex_closed :: store where
  "ex_closed =
     \<lparr>contacts = [ex_al],
      campaigns = [ex_camp\<lparr>g_started_at := Some 4, g_completed_at := Some 13\<rparr>,
                   ex_camp\<lparr>g_id := 2\<rparr>],
      messages = [(ex_msg 1 1 5 Sent)\<lparr>m_provider_id := Some ''at1'', m_sent_at := Some 12\<rparr>],
      clock = 13, contact_seq = 1\<rparr>"

text \<open>An environment in which the count query made for message 2 fails.\<close>

definition ex_env_locked :: env where
  "ex_env_locked = ex_env
     \<lparr>db_fault := (\<lambda>s. if s = CountSentToday 2 then Some ''database is locked'' else None)\<rparr>"

text \<open>
  An environment in which the \<open>commit\<close> of the \<open>UPDATE\<close> that marks message 1 sent fails,
  and what a tick then makes of \<open>ex_closing\<close>.
\<close>

definition ex_env_commit :: env where
  "ex_env_commit = ex_env
     \<lparr>db_fault := (\<lambda>s. if s = CommitSent 1 then Some ''disk I/O error'' else None)\<rparr>"

definition ex_closed_failed :: store where
  "ex_closed_failed =
     \<lparr>contacts = [ex_al],
      campaigns = [ex_camp\<lparr>g_started_at := Some 4, g_completed_at := Some 13\<rparr>,
                   ex_camp\<lparr>g_id := 2\<rparr>],
      messages = [(ex_msg 1 1 5 Failed)\<lparr>m_provider_id := Some ''at1'',
                     m_error := Some ''disk I/O error'', m_sent_at := Some 12\<rparr>],
      clock = 13, contact_seq = 1\<rparr>"

text \<open>
  A schedule in which Al's request to unsubscribe commits after the tick has selected its
  batch and before the first statement of the iteration for message 1; and the store that
  the tick then leaves of \<open>ex_closing\<close>.
\<close>

definition ex_sched :: schedule where
  "ex_sched = (\<lambda>s. if s = CountSentToday 1 then [Unsubscribe ''+1''] else [])"

definition ex_closed_optout :: store where
  "ex_closed_optout = ex_closed\<lparr>contacts := [ex_al\<lparr>c_opted_out := 1\<rparr>]\<rparr>"

text \<open>Campaigns whose target tag holds a wildcard of \<open>LIKE\<close>, in the store \<open>ex_store\<close>.\<close>

definition ex_camp_wild :: campaign where
  "ex_camp_wild = ex_camp\<lparr>g_target_tag := ''v_p''\<rparr>"

definition ex_camp_any :: campaign where
  "ex_camp_any = ex_camp\<lparr>g_target_tag := ''%''\<rparr>"

definition ex_store_wild :: store where
  "ex_store_wild = ex_store\<lparr>campaigns := [ex_camp_wild]\<rparr>"

section \<open>Basic facts\<close>

lemma upd_msg_fields [simp]:
  "contacts (upd_msg i f w) = contacts w"
  "campaigns (upd_msg i f w) = campaigns w"
  "clock (upd_msg i f w) = clock w"
  "messages (upd_msg i f w) = map (\<lambda>m. if m_id m = i then f m else m) (messages w)"
  by (simp_all add: upd_msg_def)

lemma read_clock_fields [simp]:
  "contacts (read_clock env s w) = contacts w"
  "campaigns (read_clock env s w) = campaigns w"
  "messages (read_clock env s w) = messages w"
  "clock (read_clock env s w) = clock w + elapsed env s"
  by (simp_all add: read_clock_def)

lemma static_eq_refl [simp]: "static_eq m m"
  by (simp add: static_eq_def)

lemma static_eq_trans: "static_eq a b \<Longrightarrow> static_eq b c \<Longrightarrow> static_eq a c"
  by (simp add: static_eq_def)

lemma frame_refl [simp]: "frame S w w"
  by (simp add: frame_def list_all2_same)

lemma frame_trans:
  assumes "frame S w1 w2" and "frame T w2 w3"
  shows "frame (S \<union> T) w1 w3"
proof -
  let ?R = "\<lambda>U m m'. static_eq m m' \<and> (m_id m \<notin> U \<longrightarrow> m' = m)"
  have a: "list_all2 (?R S) (messages w1) (messages w2)"
    and b: "list_all2 (?R T) (messages w2) (messages w3)"
    using assms by (simp_all add: frame_def)
  have "list_all2 (?R (S \<union> T)) (messages w1) (messages w3)"
  proof (rule list_all2_trans [OF _ a b])
    fix x y z
    assume "?R S x y" and "?R T y z"
    then show "?R (S \<union> T) x z"
      by (auto simp: static_eq_def)
  qed
  then show ?thesis
    using assms by (simp add: frame_def)
qed

lemma frame_mono: "frame S w w' \<Longrightarrow> S \<subseteq> T \<Longrightarrow> frame T w w'"
  unfolding frame_def
  by (auto elim!: list_all2_mono)

lemma frame_upd_msg:
  assumes "\<And>m. static_eq m (f m)"
  shows "frame {i} w (upd_msg i f w)"
  using assms by (simp add: frame_def list_all2_map2 list_all2_same)

lemma frame_read_clock [simp]: "frame S w (read_clock env s w)"
  by (simp add: frame_def list_all2_same)

lemma frame_set_skipped: "frame {i} w (set_skipped i reason w)"
  unfolding set_skipped_def by (rule frame_upd_msg) (simp add: static_eq_def)

lemma frame_set_sending: "frame {i} w (set_sending i w)"
  unfolding set_sending_def by (rule frame_upd_msg) (simp add: static_eq_def)

lemma frame_set_sent: "frame {i} w (set_sent i p w)"
  unfolding set_sent_def by (rule frame_upd_msg) (simp add: static_eq_def)

lemma frame_set_failed: "frame {i} w (set_failed i e w)"
  unfolding set_failed_def by (rule frame_upd_msg) (simp add: static_eq_def)

lemma frame_exec:
  assumes "\<And>w. frame S w (f w)" and "exec env s f w = (x, w')"
  shows "frame S w w'"
  using assms by (auto simp: exec_def split: option.splits)

lemma frame_step:
  "frame {i} w w1 \<Longrightarrow> frame {i} w1 w2 \<Longrightarrow> frame {i} w w2"
  using frame_trans [of "{i}" w w1 "{i}" w2] by simp

lemma process_row_cases [consumes 1,
    case_names no_consent count_fault cap sending_fault sent failed commit_failed rolled_back]:
  assumes "process_row cfg env r w = (x, tr, w')"
  obtains
    (no_consent) "r_consented r \<noteq> 1 \<or> r_opted_out r = 1"
      "exec env (SkipNoConsent (m_id (r_msg r)))
         (set_skipped (m_id (r_msg r)) ''no consent or opted out'') w = (x, w')"
      "tr = [Visit (m_id (r_msg r))]"
  | (count_fault) e where "r_consented r = 1" "r_opted_out r \<noteq> 1"
      "db_fault env (CountSentToday (m_id (r_msg r))) = Some e"
      "x = Some e" "tr = [Visit (m_id (r_msg r))]" "w' = w"
  | (cap) "r_consented r = 1" "r_opted_out r \<noteq> 1"
      "db_fault env (CountSentToday (m_id (r_msg r))) = None"
      "MAX_DAILY_PER_CONTACT cfg
         \<le> count_sent_today (read_clock env (CountSentToday (m_id (r_msg r))) w)
              (m_contact_id (r_msg r))"
      "exec env (SkipDailyCap (m_id (r_msg r)))
         (set_skipped (m_id (r_msg r)) ''daily cap reached'')
         (read_clock env (CountSentToday (m_id (r_msg r))) w) = (x, w')"
      "tr = [Visit (m_id (r_msg r))]"
  | (sending_fault) e where "r_consented r = 1" "r_opted_out r \<noteq> 1"
      "db_fault env (CountSentToday (m_id (r_msg r))) = None"
      "count_sent_today (read_clock env (CountSentToday (m_id (r_msg r))) w)
              (m_contact_id (r_msg r)) < MAX_DAILY_PER_CONTACT cfg"
      "db_fault env (MarkSending (m_id (r_msg r))) = Some e"
      "x = Some e" "tr = [Visit (m_id (r_msg r))]"
      "w' = read_clock env (CountSentToday (m_id (r_msg r))) w"
  | (sent) p where "r_consented r = 1" "r_opted_out r \<noteq> 1"
      "db_fault env (CountSentToday (m_id (r_msg r))) = None"
      "count_sent_today (read_clock env (CountSentToday (m_id (r_msg r))) w)
              (m_contact_id (r_msg r)) < MAX_DAILY_PER_CONTACT cfg"
      "db_fault env (MarkSending (m_id (r_msg r))) = None"
      "send_sms env (m_id (r_msg r)) (m_to_phone (r_msg r)) (m_body (r_msg r)) = Inr p"
      "db_fault env (MarkSent (m_id (r_msg r))) = None"
      "db_fault env (CommitSent (m_id (r_msg r))) = None"
      "x = None"
      "tr = [Visit (m_id (r_msg r)), Send (m_id (r_msg r)) (m_to_phone (r_msg r)) (m_body (r_msg r))]"
      "w' = set_sent (m_id (r_msg r)) p (read_clock env (MarkSent (m_id (r_msg r)))
              (set_sending (m_id (r_msg r)) (read_clock env (CountSentToday (m_id (r_msg r))) w)))"
  | (failed) e where "r_consented r = 1" "r_opted_out r \<noteq> 1"
      "db_fault env (CountSentToday (m_id (r_msg r))) = None"
      "count_sent_today (read_clock env (CountSentToday (m_id (r_msg r))) w)
              (m_contact_id (r_msg r)) < MAX_DAILY_PER_CONTACT cfg"
      "db_fault env (MarkSending (m_id (r_msg r))) = None"
      "send_sms env (m_id (r_msg r)) (m_to_phone (r_msg r)) (m_body (r_msg r)) = Inl e
       \<or> (\<exists>p. send_sms env (m_id (r_msg r)) (m_to_phone (r_msg r)) (m_body (r_msg r)) = Inr p
              \<and> db_fault env (MarkSent (m_id (r_msg r))) = Some e)"
      "exec env (MarkFailed (m_id (r_msg r))) (set_failed (m_id (r_msg r)) e)
         (set_sending (m_id (r_msg r)) (read_clock env (CountSentToday (m_id (r_msg r))) w)) = (x, w')"
      "tr = [Visit (m_id (r_msg r)), Send (m_id (r_msg r)) (m_to_phone (r_msg r)) (m_body (r_msg r))]"
  | (commit_failed) p e where "r_consented r = 1" "r_opted_out r \<noteq> 1"
      "db_fault env (CountSentToday (m_id (r_msg r))) = None"
      "count_sent_today (read_clock env (CountSentToday (m_id (r_msg r))) w)
              (m_contact_id (r_msg r)) < MAX_DAILY_PER_CONTACT cfg"
      "db_fault env (MarkSending (m_id (r_msg r))) = None"
      "send_sms env (m_id (r_msg r)) (m_to_phone (r_msg r)) (m_body (r_msg r)) = Inr p"
      "db_fault env (MarkSent (m_id (r_msg r))) = None"
      "db_fault env (CommitSent (m_id (r_msg r))) = Some e"
      "db_fault env (MarkFailed (m_id (r_msg r))) = None"
      "x = None"
      "tr = [Visit (m_id (r_msg r)), Send (m_id (r_msg r)) (m_to_phone (r_msg r)) (m_body (r_msg r))]"
      "w' = set_failed (m_id (r_msg r)) e
              (set_sent (m_id (r_msg r)) p (read_clock env (MarkSent (m_id (r_msg r)))
                 (set_sending (m_id (r_msg r)) (read_clock env (CountSentToday (m_id (r_msg r))) w))))"
  | (rolled_back) p e e' where "r_consented r = 1" "r_opted_out r \<noteq> 1"
      "db_fault env (CountSentToday (m_id (r_msg r))) = None"
      "count_sent_today (read_clock env (CountSentToday (m_id (r_msg r))) w)
              (m_contact_id (r_msg r)) < MAX_DAILY_PER_CONTACT cfg"
      "db_fault env (MarkSending (m_id (r_msg r))) = None"
      "send_sms env (m_id (r_msg r)) (m_to_phone (r_msg r)) (m_body (r_msg r)) = Inr p"
      "db_fault env (MarkSent (m_id (r_msg r))) = None"
      "db_fault env (CommitSent (m_id (r_msg r))) = Some e"
      "db_fault env (MarkFailed (m_id (r_msg r))) = Some e'"
      "x = Some e'"
      "tr = [Visit (m_id (r_msg r)), Send (m_id (r_msg r)) (m_to_phone (r_msg r)) (m_body (r_msg r))]"
      "w' = read_clock env (MarkSent (m_id (r_msg r)))
              (set_sending (m_id (r_msg r)) (read_clock env (CountSentToday (m_id (r_msg r))) w))"
proof -
  let ?i = "m_id (r_msg r)"
  let ?w1 = "read_clock env (CountSentToday ?i) w"
  let ?w2 = "set_sending ?i ?w1"
  let ?tr = "[Visit ?i, Send ?i (m_to_phone (r_msg r)) (m_body (r_msg r))]"
  note defs = process_row_def Let_def query_def
  show thesis
  proof (cases "r_consented r \<noteq> 1 \<or> r_opted_out r = 1")
    case True
    with assms have "exec env (SkipNoConsent ?i) (set_skipped ?i ''no consent or opted out'') w
        = (x, w')" "tr = [Visit ?i]"
      by (auto simp: defs split: prod.splits)
    with True show thesis by (rule no_consent)
  next
    case flags: False
    then have fl: "r_consented r = 1" "r_opted_out r \<noteq> 1"
      by simp_all
    show thesis
    proof (cases "db_fault env (CountSentToday ?i)")
      case (Some e)
      with assms flags have "x = Some e" "tr = [Visit ?i]" "w' = w"
        by (simp_all add: defs)
      with fl Some show thesis by (rule count_fault)
    next
      case count: None
      show thesis
      proof (cases "MAX_DAILY_PER_CONTACT cfg \<le> count_sent_today ?w1 (m_contact_id (r_msg r))")
        case True
        with assms flags count
        have "exec env (SkipDailyCap ?i) (set_skipped ?i ''daily cap reached'') ?w1 = (x, w')"
          "tr = [Visit ?i]"
          by (auto simp: defs split: prod.splits)
        with fl count True show thesis by (rule cap)
      next
        case False
        then have below: "count_sent_today ?w1 (m_contact_id (r_msg r)) < MAX_DAILY_PER_CONTACT cfg"
          by simp
        show thesis
        proof (cases "db_fault env (MarkSending ?i)")
          case (Some e)
          with assms flags count False have "x = Some e" "tr = [Visit ?i]" "w' = ?w1"
            by (simp_all add: defs exec_def)
          with fl count below Some show thesis by (rule sending_fault)
        next
          case sending: None
          show thesis
          proof (cases "send_sms env ?i (m_to_phone (r_msg r)) (m_body (r_msg r))")
            case (Inl e)
            with assms flags count False sending
            have "exec env (MarkFailed ?i) (set_failed ?i e) ?w2 = (x, w')" "tr = ?tr"
              by (auto simp: defs exec_def split: option.splits)
            with fl count below sending Inl show thesis
              by (intro failed [of e]) simp_all
          next
            case (Inr p)
            show thesis
            proof (cases "db_fault env (MarkSent ?i)")
              case (Some e)
              with assms flags count False sending Inr
              have "exec env (MarkFailed ?i) (set_failed ?i e) ?w2 = (x, w')" "tr = ?tr"
                by (auto simp: defs exec_def split: option.splits)
              with fl count below sending Inr Some show thesis
                by (intro failed [of e]) simp_all
            next
              case marksent: None
              show thesis
              proof (cases "db_fault env (CommitSent ?i)")
                case None
                with assms flags count False sending Inr marksent
                have "x = None" "tr = ?tr"
                  "w' = set_sent ?i p (read_clock env (MarkSent ?i) ?w2)"
                  by (simp_all add: defs exec_def)
                with fl count below sending Inr marksent None show thesis
                  by (rule sent)
              next
                case commit: (Some e)
                show thesis
                proof (cases "db_fault env (MarkFailed ?i)")
                  case None
                  with assms flags count False sending Inr marksent commit
                  have "x = None" "tr = ?tr"
                    "w' = set_failed ?i e (set_sent ?i p (read_clock env (MarkSent ?i) ?w2))"
                    by (simp_all add: defs exec_def)
                  with fl count below sending Inr marksent commit None show thesis
                    by (rule commit_failed)
                next
                  case (Some e')
                  with assms flags count False sending Inr marksent commit
                  have "x = Some e'" "tr = ?tr" "w' = read_clock env (MarkSent ?i) ?w2"
                    by (simp_all add: defs exec_def set_sent_def upd_msg_def read_clock_def)
                  with fl count below sending Inr marksent commit Some show thesis
                    by (rule rolled_back)
                qed
              qed
            qed
          qed
        qed
      qed
    qed
  qed
qed

lemma frame_process_row:
  assumes "process_row cfg env r w = (x, tr, w')"
  shows "frame {m_id (r_msg r)} w w'"
proof -
  let ?i = "m_id (r_msg r)"
  have rc: "frame {?i} v (read_clock env s v)" for s v
    by simp
  have sg: "frame {?i} w (set_sending ?i (read_clock env (CountSentToday ?i) w))"
    by (rule frame_step [OF rc frame_set_sending])
  have st: "frame {?i} w (set_sent ?i p (read_clock env (MarkSent ?i)
      (set_sending ?i (read_clock env (CountSentToday ?i) w))))" for p
    by (rule frame_step [OF frame_step [OF sg rc] frame_set_sent])
  from assms show ?thesis
  proof (cases rule: process_row_cases)
    case no_consent
    from frame_set_skipped this(2) show ?thesis
      by (rule frame_exec)
  next
    case (count_fault e)
    then show ?thesis by simp
  next
    case cap
    from frame_set_skipped cap(5) have "frame {?i} (read_clock env (CountSentToday ?i) w) w'"
      by (rule frame_exec)
    with rc show ?thesis by (rule frame_step)
  next
    case (sending_fault e)
    then show ?thesis by simp
  next
    case (sent p)
    with st show ?thesis by simp
  next
    case (failed e)
    from frame_set_failed failed(7)
    have "frame {?i} (set_sending ?i (read_clock env (CountSentToday ?i) w)) w'"
      by (rule frame_exec)
    with sg show ?thesis by (rule frame_step)
  next
    case (commit_failed p e)
    have "frame {?i} w (set_failed ?i e (set_sent ?i p (read_clock env (MarkSent ?i)
      (set_sending ?i (read_clock env (CountSentToday ?i) w)))))"
      by (rule frame_step [OF st frame_set_failed])
    with commit_failed show ?thesis by simp
  next
    case (rolled_back p e e')
    have "frame {?i} w (read_clock env (MarkSent ?i)
      (set_sending ?i (read_clock env (CountSentToday ?i) w)))"
      by (rule frame_step [OF sg rc])
    with rolled_back show ?thesis by simp
  qed
qed

subsection \<open>The dispatch loop\<close>

lemma process_row_trace:
  assumes "process_row cfg env r w = (x, tr, w')"
  shows "visits tr = [m_id (r_msg r)]" and "\<forall>e \<in> set tr. ev_id e = m_id (r_msg r)"
    and "\<forall>i p b. Send i p b \<in> set tr \<longrightarrow> p = m_to_phone (r_msg r) \<and> b = m_body (r_msg r)"
  using assms by (cases rule: process_row_cases; simp add: visits_def)+

lemma visits_append [simp]: "visits (a @ b) = visits a @ visits b"
  by (simp add: visits_def)

lemma visits_Nil [simp]: "visits [] = []"
  by (simp add: visits_def)

lemma Visit_in_visits: "Visit i \<in> set tr \<longleftrightarrow> i \<in> set (visits tr)"
  by (induction tr) (auto simp: visits_def split: event.splits)

lemma row_ids_simps [simp]:
  "row_ids [] = []" "row_ids (r # rows) = m_id (r_msg r) # row_ids rows"
  "row_ids (xs @ ys) = row_ids xs @ row_ids ys"
  by (simp_all add: row_ids_def)

lemma frame_dispatch:
  "dispatch cfg env rows w = (x, tr, w') \<Longrightarrow> frame (set (row_ids rows)) w w'"
proof (induction rows arbitrary: w x tr w')
  case Nil
  then show ?case by simp
next
  case (Cons r rows)
  obtain x1 tr1 w1 where p: "process_row cfg env r w = (x1, tr1, w1)"
    by (cases "process_row cfg env r w") auto
  have f1: "frame {m_id (r_msg r)} w w1"
    using p by (rule frame_process_row)
  show ?case
  proof (cases x1)
    case (Some e)
    with Cons.prems p have "w' = w1" by simp
    with f1 show ?thesis by (auto intro: frame_mono)
  next
    case None
    obtain x2 tr2 w2 where d: "dispatch cfg env rows w1 = (x2, tr2, w2)"
      by (cases "dispatch cfg env rows w1") auto
    with Cons.prems p None have "w' = w2" by simp
    with Cons.IH [OF d] f1 show ?thesis
      using frame_trans [of "{m_id (r_msg r)}" w w1 "set (row_ids rows)" w2] by simp
  qed
qed

lemma dispatch_events:
  "dispatch cfg env rows w = (x, tr, w') \<Longrightarrow> \<forall>e \<in> set tr. ev_id e \<in> set (row_ids rows)"
proof (induction rows arbitrary: w x tr w')
  case Nil
  then show ?case by simp
next
  case (Cons r rows)
  obtain x1 tr1 w1 where p: "process_row cfg env r w = (x1, tr1, w1)"
    by (cases "process_row cfg env r w") auto
  note t1 = process_row_trace(2) [OF p]
  show ?case
  proof (cases x1)
    case (Some e)
    with Cons.prems p have "tr = tr1" by simp
    with t1 show ?thesis by simp
  next
    case None
    obtain x2 tr2 w2 where d: "dispatch cfg env rows w1 = (x2, tr2, w2)"
      by (cases "dispatch cfg env rows w1") auto
    with Cons.prems p None have "tr = tr1 @ tr2" by simp
    with Cons.IH [OF d] t1 show ?thesis by auto
  qed
qed

text \<open>The loop visits the rows in order and stops at the first one that raises.\<close>

lemma dispatch_visits:
  "dispatch cfg env rows w = (x, tr, w') \<Longrightarrow>
     (x = None \<longrightarrow> visits tr = row_ids rows)
     \<and> (\<exists>k. 0 < k \<and> k \<le> length rows \<and> visits tr = take k (row_ids rows) \<or> rows = [] \<and> tr = [])"
proof (induction rows arbitrary: w x tr w')
  case Nil
  then show ?case by simp
next
  case (Cons r rows)
  obtain x1 tr1 w1 where p: "process_row cfg env r w = (x1, tr1, w1)"
    by (cases "process_row cfg env r w") auto
  note t1 = process_row_trace(1) [OF p]
  show ?case
  proof (cases x1)
    case (Some e)
    with Cons.prems p have "tr = tr1" "x = Some e" by simp_all
    with t1 show ?thesis by (auto intro: exI [of _ 1])
  next
    case None
    obtain x2 tr2 w2 where d: "dispatch cfg env rows w1 = (x2, tr2, w2)"
      by (cases "dispatch cfg env rows w1") auto
    with Cons.prems p None have eq: "tr = tr1 @ tr2" "x = x2" by simp_all
    from Cons.IH [OF d] have ih1: "x2 = None \<longrightarrow> visits tr2 = row_ids rows"
      and ih2: "\<exists>k. 0 < k \<and> k \<le> length rows \<and> visits tr2 = take k (row_ids rows) \<or> rows = [] \<and> tr2 = []"
      by blast+
    from ih2 obtain k where k: "0 < k \<and> k \<le> length rows \<and> visits tr2 = take k (row_ids rows) \<or> rows = [] \<and> tr2 = []"
      by blast
    have "0 < Suc k \<and> Suc k \<le> length (r # rows) \<and> visits tr = take (Suc k) (row_ids (r # rows))
        \<or> (0 < (1::nat) \<and> 1 \<le> length (r # rows) \<and> visits tr = take 1 (row_ids (r # rows)))"
      using k eq t1 by auto
    then have "\<exists>k. 0 < k \<and> k \<le> length (r # rows) \<and> visits tr = take k (row_ids (r # rows))"
      by blast
    with ih1 eq t1 show ?thesis by auto
  qed
qed

text \<open>
  What the loop does to the message it visits: the rows before it leave that message
  alone, its own iteration runs from there, and so do the rows after it.
\<close>

lemma dispatch_visit:
  assumes "dispatch cfg env rows w = (x, tr, w')"
    and "Visit i \<in> set tr" and "distinct (row_ids rows)"
  obtains r w1 x1 tr1 w2 where "r \<in> set rows" "m_id (r_msg r) = i"
    "frame (set (row_ids rows) - {i}) w w1"
    "process_row cfg env r w1 = (x1, tr1, w2)"
    "frame (set (row_ids rows) - {i}) w2 w'"
    "filter (\<lambda>e. ev_id e = i) tr = tr1"
    "x1 \<noteq> None \<longrightarrow> x = x1"
proof -
  have "\<exists>r w1 x1 tr1 w2. r \<in> set rows \<and> m_id (r_msg r) = i
      \<and> frame (set (row_ids rows) - {i}) w w1
      \<and> process_row cfg env r w1 = (x1, tr1, w2)
      \<and> frame (set (row_ids rows) - {i}) w2 w'
      \<and> filter (\<lambda>e. ev_id e = i) tr = tr1 \<and> (x1 \<noteq> None \<longrightarrow> x = x1)"
    using assms
  proof (induction rows arbitrary: w x tr w')
    case Nil
    then show ?case by simp
  next
    case (Cons r rows)
    obtain x1 tr1 w1 where p: "process_row cfg env r w = (x1, tr1, w1)"
      by (cases "process_row cfg env r w") auto
    note t1 = process_row_trace(2) [OF p]
    have f1: "frame {m_id (r_msg r)} w w1"
      using p by (rule frame_process_row)
    have dis: "m_id (r_msg r) \<notin> set (row_ids rows)" "distinct (row_ids rows)"
      using Cons.prems(3) by simp_all
    show ?case
    proof (cases "m_id (r_msg r) = i")
      case True
      have rest: "frame (set (row_ids (r # rows)) - {i}) w1 w'
          \<and> filter (\<lambda>e. ev_id e = i) tr = tr1 \<and> (x1 \<noteq> None \<longrightarrow> x = x1)"
      proof (cases x1)
        case (Some e)
        with Cons.prems(1) p have "w' = w1" "tr = tr1" "x = x1" by simp_all
        with t1 True show ?thesis by (simp add: filter_id_conv)
      next
        case None
        obtain x2 tr2 w2 where d: "dispatch cfg env rows w1 = (x2, tr2, w2)"
          by (cases "dispatch cfg env rows w1") auto
        with Cons.prems(1) p None have eq: "tr = tr1 @ tr2" "w' = w2" by simp_all
        have "\<forall>e \<in> set tr2. ev_id e \<noteq> i"
          using dispatch_events [OF d] dis True by auto
        then have "filter (\<lambda>e. ev_id e = i) tr2 = []"
          by (simp add: filter_empty_conv)
        moreover have "frame (set (row_ids (r # rows)) - {i}) w1 w2"
          using frame_dispatch [OF d] dis True by (auto intro: frame_mono)
        ultimately show ?thesis
          using eq t1 True None by (simp add: filter_id_conv)
      qed
      have "frame (set (row_ids (r # rows)) - {i}) w w" by simp
      with rest p True show ?thesis
        by (intro exI [of _ r] exI [of _ w] exI [of _ x1] exI [of _ tr1] exI [of _ w1]) simp
    next
      case False
      have notin: "Visit i \<notin> set tr1"
        using t1 False by force
      show ?thesis
      proof (cases x1)
        case (Some e)
        with Cons.prems(1) p have "tr = tr1" by simp
        with notin Cons.prems(2) show ?thesis by simp
      next
        case None
        obtain x2 tr2 w2 where d: "dispatch cfg env rows w1 = (x2, tr2, w2)"
          by (cases "dispatch cfg env rows w1") auto
        with Cons.prems(1) p None have eq: "tr = tr1 @ tr2" "w' = w2" "x = x2" by simp_all
        with notin Cons.prems(2) have v: "Visit i \<in> set tr2" by simp
        from Cons.IH [OF d v dis(2)] obtain r' wa xa tra wb where
          ih: "r' \<in> set rows" "m_id (r_msg r') = i"
            "frame (set (row_ids rows) - {i}) w1 wa"
            "process_row cfg env r' wa = (xa, tra, wb)"
            "frame (set (row_ids rows) - {i}) wb w2"
            "filter (\<lambda>e. ev_id e = i) tr2 = tra" "xa \<noteq> None \<longrightarrow> x2 = xa"
          by blast
        have "frame ({m_id (r_msg r)} \<union> (set (row_ids rows) - {i})) w wa"
          using frame_trans [OF f1 ih(3)] .
        then have fa: "frame (set (row_ids (r # rows)) - {i}) w wa"
          using False by (auto intro: frame_mono)
        have fb: "frame (set (row_ids (r # rows)) - {i}) wb w'"
          using ih(5) eq by (auto intro: frame_mono)
        have "filter (\<lambda>e. ev_id e = i) tr1 = []"
          using t1 False by (simp add: filter_empty_conv)
        with ih(6) eq have ft: "filter (\<lambda>e. ev_id e = i) tr = tra" by simp
        show ?thesis
          using ih(1,2,4,7) fa fb ft eq
          by (intro exI [of _ r'] exI [of _ wa] exI [of _ xa] exI [of _ tra] exI [of _ wb]) simp
      qed
    qed
  qed
  then show ?thesis using that by blast
qed

text \<open>An invariant of every iteration is an invariant of the loop.\<close>

lemma dispatch_invariant:
  assumes "\<And>r w x tr w'. r \<in> set rows \<Longrightarrow> P w \<Longrightarrow> process_row cfg env r w = (x, tr, w') \<Longrightarrow> P w'"
    and "P w" and "dispatch cfg env rows w = (x, tr, w')"
  shows "P w'"
  using assms
proof (induction rows arbitrary: w x tr w')
  case Nil
  then show ?case by simp
next
  case (Cons r rows)
  obtain x1 tr1 w1 where p: "process_row cfg env r w = (x1, tr1, w1)"
    by (cases "process_row cfg env r w") auto
  have P1: "P w1"
    using Cons.prems(1) [of r w x1 tr1 w1] Cons.prems(2) p by simp
  show ?case
  proof (cases x1)
    case (Some e)
    with Cons.prems(3) p P1 show ?thesis by simp
  next
    case None
    obtain x2 tr2 w2 where d: "dispatch cfg env rows w1 = (x2, tr2, w2)"
      by (cases "dispatch cfg env rows w1") auto
    with Cons.prems(3) p None have "w' = w2" by simp
    moreover have "P w2"
    proof (rule Cons.IH [OF _ P1 d])
      fix ra wa xa tra wb
      assume "ra \<in> set rows" "P wa" "process_row cfg env ra wa = (xa, tra, wb)"
      then show "P wb"
        using Cons.prems(1) [of ra wa xa tra wb] by simp
    qed
    ultimately show ?thesis by simp
  qed
qed

subsection \<open>Looking a message up\<close>

lemma frame_ids: "frame S w w' \<Longrightarrow> map m_id (messages w') = map m_id (messages w)"
proof -
  assume "frame S w w'"
  then have "list_all2 (\<lambda>m m'. m_id m' = m_id m) (messages w) (messages w')"
    unfolding frame_def static_eq_def by (auto elim!: list_all2_mono)
  then show ?thesis
    by (induction rule: list_all2_induct) simp_all
qed

lemma frame_find:
  assumes "list_all2 (\<lambda>m m'. static_eq m m' \<and> (m_id m \<notin> S \<longrightarrow> m' = m)) xs ys" and "i \<notin> S"
  shows "find (\<lambda>m. m_id m = i) ys = find (\<lambda>m. m_id m = i) xs"
  using assms by (induction rule: list_all2_induct) (auto simp: static_eq_def)

lemma frame_get_msg: "frame S w w' \<Longrightarrow> i \<notin> S \<Longrightarrow> get_msg w' i = get_msg w i"
  unfolding frame_def get_msg_def by (blast intro: frame_find)

lemma frame_in_set:
  assumes "frame S w w'" and "m \<in> set (messages w)" and "m_id m \<notin> S"
  shows "m \<in> set (messages w')"
proof -
  have "list_all2 (\<lambda>m m'. static_eq m m' \<and> (m_id m \<notin> S \<longrightarrow> m' = m)) (messages w) (messages w')"
    using assms(1) by (simp add: frame_def)
  then show ?thesis
    using assms(2,3) by (induction rule: list_all2_induct) auto
qed

lemma find_distinct:
  "distinct (map m_id ms) \<Longrightarrow> m \<in> set ms \<Longrightarrow> find (\<lambda>x. m_id x = m_id m) ms = Some m"
  by (induction ms) (auto simp: image_iff)

lemma get_msg_in:
  "distinct (map m_id (messages w)) \<Longrightarrow> m \<in> set (messages w) \<Longrightarrow> get_msg w (m_id m) = Some m"
  unfolding get_msg_def by (rule find_distinct)

lemma get_msg_SomeD: "get_msg w i = Some m \<Longrightarrow> m \<in> set (messages w) \<and> m_id m = i"
  unfolding get_msg_def by (auto simp: find_Some_iff)

lemma get_msg_upd:
  assumes "\<And>m. m_id (f m) = m_id m"
  shows "get_msg (upd_msg i f w) j = (if j = i then map_option f (get_msg w j) else get_msg w j)"
proof -
  have "find (\<lambda>m. m_id m = j) (map (\<lambda>m. if m_id m = i then f m else m) ms)
      = (if j = i then map_option f (find (\<lambda>m. m_id m = j) ms) else find (\<lambda>m. m_id m = j) ms)" for ms
    by (induction ms) (auto simp: assms)
  then show ?thesis
    by (simp add: get_msg_def)
qed

lemma get_msg_read_clock [simp]: "get_msg (read_clock env s w) i = get_msg w i"
  by (simp add: get_msg_def)

subsection \<open>The batch\<close>

lemma joined_iff:
  "r \<in> set (joined w) \<longleftrightarrow>
     (\<exists>m \<in> set (messages w). m_status m = Queued \<and>
        (\<exists>c \<in> set (contacts w). c_id c = m_contact_id m \<and>
           r = \<lparr>r_msg = m, r_consented = c_consented c, r_opted_out = c_opted_out c\<rparr>))"
  by (auto simp: joined_def)

lemma select_queued_subset: "set (select_queued n w) \<subseteq> set (joined w)"
  unfolding select_queued_def by (metis set_sort set_take_subset)

lemma select_queued_row:
  assumes "r \<in> set (select_queued n w)"
  shows "r_msg r \<in> set (messages w)" and "m_status (r_msg r) = Queued"
    and "\<exists>c \<in> set (contacts w). c_id c = m_contact_id (r_msg r)
           \<and> r_consented r = c_consented c \<and> r_opted_out r = c_opted_out c"
proof -
  have "r \<in> set (joined w)"
    using assms select_queued_subset by blast
  then obtain m c where "m \<in> set (messages w)" "m_status m = Queued" "c \<in> set (contacts w)"
    "c_id c = m_contact_id m"
    "r = \<lparr>r_msg = m, r_consented = c_consented c, r_opted_out = c_opted_out c\<rparr>"
    unfolding joined_iff by blast
  then show "r_msg r \<in> set (messages w)" and "m_status (r_msg r) = Queued"
    and "\<exists>c \<in> set (contacts w). c_id c = m_contact_id (r_msg r)
           \<and> r_consented r = c_consented c \<and> r_opted_out r = c_opted_out c"
    by auto
qed

lemma at_most_one_contact:
  "distinct (map c_id cs) \<Longrightarrow> length (filter (\<lambda>c. c_id c = k) cs) \<le> 1"
  by (induction cs) (auto simp: filter_empty_conv image_iff)

lemma distinct_concat_const:
  assumes "distinct (map g qs)" and "\<And>m. length (f m) \<le> 1"
  shows "distinct (concat (map (\<lambda>m. map (\<lambda>c. g m) (f m)) qs))"
  using assms(1)
proof (induction qs)
  case Nil
  then show ?case by simp
next
  case (Cons q qs)
  have "length (f q) \<le> 1" by (rule assms(2))
  then have "f q = [] \<or> (\<exists>a. f q = [a])"
    by (cases "f q") (auto simp: length_Suc_conv)
  then have "distinct (map (\<lambda>c. g q) (f q))" by auto
  with Cons show ?case by auto
qed

lemma distinct_row_ids_joined:
  assumes "primary_keys w"
  shows "distinct (row_ids (joined w))"
proof -
  have d: "distinct (map m_id (filter (\<lambda>m. m_status m = Queued) (messages w)))"
    using assms by (simp add: primary_keys_def distinct_map_filter)
  have "row_ids (joined w)
      = concat (map (\<lambda>m. map (\<lambda>c. m_id m) (filter (\<lambda>c. c_id c = m_contact_id m) (contacts w)))
                 (filter (\<lambda>m. m_status m = Queued) (messages w)))"
    by (simp add: row_ids_def joined_def map_concat comp_def)
  also have "distinct \<dots>"
    using d
  proof (rule distinct_concat_const)
    fix m
    have "distinct (map c_id (contacts w))"
      using assms by (simp add: primary_keys_def)
    then show "length (filter (\<lambda>c. c_id c = m_contact_id m) (contacts w)) \<le> 1"
      by (rule at_most_one_contact)
  qed
  finally show ?thesis .
qed

lemma distinct_row_ids:
  assumes "primary_keys w"
  shows "distinct (row_ids (select_queued n w))"
proof -
  let ?k = "\<lambda>r. m_created_at (r_msg r)"
  have "distinct (map (\<lambda>r. m_id (r_msg r)) (joined w))"
    using distinct_row_ids_joined [OF assms] by (simp add: row_ids_def)
  then have "distinct (map (\<lambda>r. m_id (r_msg r)) (sort_key ?k (joined w)))"
    by (simp add: distinct_map)
  then have "distinct (take n (map (\<lambda>r. m_id (r_msg r)) (sort_key ?k (joined w))))"
    by (rule distinct_take)
  then show ?thesis
    by (simp add: row_ids_def select_queued_def take_map)
qed

lemma select_queued_length: "length (select_queued n w) \<le> n"
  by (simp add: select_queued_def)

lemma select_queued_get_msg:
  assumes "primary_keys w" and "r \<in> set (select_queued n w)"
  shows "get_msg w (m_id (r_msg r)) = Some (r_msg r)"
  using assms select_queued_row(1) [OF assms(2)]
  by (simp add: primary_keys_def get_msg_in)

subsection \<open>The completion scan\<close>

lemma complete_campaigns_keeps:
  "complete_campaigns env cs w = (x, w') \<Longrightarrow>
     messages w' = messages w \<and> contacts w' = contacts w \<and> clock w \<le> clock w'"
proof (induction cs arbitrary: w x w')
  case Nil
  then show ?case by simp
next
  case (Cons c cs)
  show ?case
  proof (cases "db_fault env (CountLeft c)")
    case (Some e)
    with Cons.prems show ?thesis by (simp add: query_def)
  next
    case None
    show ?thesis
    proof (cases "count_left w c = 0")
      case False
      with None Cons.prems have "complete_campaigns env cs w = (x, w')"
        by (simp add: query_def)
      then show ?thesis by (rule Cons.IH)
    next
      case True
      show ?thesis
      proof (cases "db_fault env (MarkCompleted c)")
        case (Some e)
        with None True Cons.prems show ?thesis
          by (simp add: query_def exec_def)
      next
        case n2: None
        let ?w1 = "set_completed c (read_clock env (MarkCompleted c) w)"
        from None True n2 Cons.prems have "complete_campaigns env cs ?w1 = (x, w')"
          by (simp add: query_def exec_def)
        from Cons.IH [OF this] show ?thesis
          by (simp add: set_completed_def)
      qed
    qed
  qed
qed

lemma frame_complete_campaigns:
  "complete_campaigns env cs w = (x, w') \<Longrightarrow> frame {} w w'"
  by (drule complete_campaigns_keeps) (simp add: frame_def list_all2_same)

subsection \<open>The tick as a whole\<close>

lemma tick_select_fault:
  "db_fault env SelectQueued = Some e \<Longrightarrow> process_queue_tick cfg env w = (Some e, [], w)"
  by (simp add: process_queue_tick_def query_def)

lemma tick_dispatch_fault:
  "db_fault env SelectQueued = None \<Longrightarrow>
   dispatch cfg env (select_queued (SEND_PER_SECOND cfg) w) w = (Some e, tr, w1) \<Longrightarrow>
   process_queue_tick cfg env w = (Some e, tr, w1)"
  by (simp add: process_queue_tick_def query_def)

lemma tick_started_fault:
  "db_fault env SelectQueued = None \<Longrightarrow>
   dispatch cfg env (select_queued (SEND_PER_SECOND cfg) w) w = (None, tr, w1) \<Longrightarrow>
   db_fault env SelectStarted = Some e \<Longrightarrow>
   process_queue_tick cfg env w = (Some e, tr, w1)"
  by (simp add: process_queue_tick_def query_def)

lemma tick_scanned:
  "db_fault env SelectQueued = None \<Longrightarrow>
   dispatch cfg env (select_queued (SEND_PER_SECOND cfg) w) w = (None, tr, w1) \<Longrightarrow>
   db_fault env SelectStarted = None \<Longrightarrow>
   complete_campaigns env (started w1) w1 = (x, w2) \<Longrightarrow>
   process_queue_tick cfg env w = (x, tr, w2)"
  by (simp add: process_queue_tick_def query_def)

lemma tick_cases [consumes 1, case_names select_fault dispatch_fault started_fault scanned]:
  assumes "process_queue_tick cfg env w = (x, tr, w')"
  obtains
    (select_fault) e where "db_fault env SelectQueued = Some e" "x = Some e" "tr = []" "w' = w"
  | (dispatch_fault) e where "db_fault env SelectQueued = None"
      "dispatch cfg env (select_queued (SEND_PER_SECOND cfg) w) w = (Some e, tr, w')" "x = Some e"
  | (started_fault) e where "db_fault env SelectQueued = None"
      "dispatch cfg env (select_queued (SEND_PER_SECOND cfg) w) w = (None, tr, w')"
      "db_fault env SelectStarted = Some e" "x = Some e"
  | (scanned) w1 where "db_fault env SelectQueued = None"
      "dispatch cfg env (select_queued (SEND_PER_SECOND cfg) w) w = (None, tr, w1)"
      "db_fault env SelectStarted = None"
      "complete_campaigns env (started w1) w1 = (x, w')"
proof (cases "db_fault env SelectQueued")
  case (Some e)
  from tick_select_fault [OF Some, of cfg w] assms
  have "x = Some e" "tr = []" "w' = w" by simp_all
  then show thesis by (rule select_fault [OF Some])
next
  case None
  obtain xd trd wd where d: "dispatch cfg env (select_queued (SEND_PER_SECOND cfg) w) w = (xd, trd, wd)"
    by (cases "dispatch cfg env (select_queued (SEND_PER_SECOND cfg) w) w") auto
  show thesis
  proof (cases xd)
    case (Some e)
    from tick_dispatch_fault [OF None d [unfolded Some]] assms
    have eq: "x = Some e" "trd = tr" "wd = w'" by simp_all
    show thesis
      by (rule dispatch_fault [OF None d [unfolded Some eq] eq(1)])
  next
    case xn: None
    show thesis
    proof (cases "db_fault env SelectStarted")
      case (Some e)
      from tick_started_fault [OF None d [unfolded xn] Some] assms
      have eq: "x = Some e" "trd = tr" "wd = w'" by simp_all
      show thesis
        by (rule started_fault [OF None d [unfolded xn eq] Some eq(1)])
    next
      case sn: None
      obtain xc wc where c: "complete_campaigns env (started wd) wd = (xc, wc)"
        by (cases "complete_campaigns env (started wd) wd") auto
      from tick_scanned [OF None d [unfolded xn] sn c] assms
      have eq: "xc = x" "trd = tr" "wc = w'" by simp_all
      show thesis
        by (rule scanned [OF None d [unfolded xn eq] sn c [unfolded eq]])
    qed
  qed
qed

lemma frame_tick:
  assumes "process_queue_tick cfg env w = (x, tr, w')"
  shows "frame (set (row_ids (select_queued (SEND_PER_SECOND cfg) w))) w w'"
  using assms
proof (cases rule: tick_cases)
  case (scanned w1)
  from frame_trans [OF frame_dispatch [OF scanned(2)] frame_complete_campaigns [OF scanned(4)]]
  show ?thesis by simp
next
  case (select_fault e)
  then show ?thesis by simp
next
  case (dispatch_fault e)
  show ?thesis by (rule frame_dispatch [OF dispatch_fault(2)])
next
  case (started_fault e)
  show ?thesis by (rule frame_dispatch [OF started_fault(2)])
qed

lemma tick_visit:
  assumes "process_queue_tick cfg env w = (x, tr, w')"
    and "Visit i \<in> set tr" and "primary_keys w"
  obtains r w1 x1 tr1 w2 where "r \<in> set (select_queued (SEND_PER_SECOND cfg) w)"
    "m_id (r_msg r) = i" "get_msg w i = Some (r_msg r)"
    "frame (- {i}) w w1"
    "process_row cfg env r w1 = (x1, tr1, w2)"
    "frame (- {i}) w2 w'"
    "filter (\<lambda>e. ev_id e = i) tr = tr1"
proof -
  let ?rows = "select_queued (SEND_PER_SECOND cfg) w"
  obtain xd wd where d: "dispatch cfg env ?rows w = (xd, tr, wd)" and fd: "frame {} wd w'"
    using assms(1)
  proof (cases rule: tick_cases)
    case (select_fault e)
    with assms(2) show ?thesis by simp
  next
    case (dispatch_fault e)
    show ?thesis by (rule that [OF dispatch_fault(2) frame_refl])
  next
    case (started_fault e)
    show ?thesis by (rule that [OF started_fault(2) frame_refl])
  next
    case (scanned w1)
    show ?thesis
      by (rule that [OF scanned(2) frame_complete_campaigns [OF scanned(4)]])
  qed
  show thesis
  proof (rule dispatch_visit [OF d assms(2) distinct_row_ids [OF assms(3)]])
    fix r w1 x1 tr1 w2
    assume r: "r \<in> set ?rows" "m_id (r_msg r) = i"
      "frame (set (row_ids ?rows) - {i}) w w1"
      "process_row cfg env r w1 = (x1, tr1, w2)"
      "frame (set (row_ids ?rows) - {i}) w2 wd"
      "filter (\<lambda>e. ev_id e = i) tr = tr1"
    have "frame ((set (row_ids ?rows) - {i}) \<union> {}) w2 w'"
      using r(5) fd by (rule frame_trans)
    then have f2: "frame (- {i}) w2 w'"
      by (rule frame_mono) auto
    have f1: "frame (- {i}) w w1"
      using r(3) by (rule frame_mono) auto
    have g: "get_msg w i = Some (r_msg r)"
      using select_queued_get_msg [OF assms(3) r(1)] r(2) by simp
    show thesis
      by (rule that [OF r(1,2) g f1 r(4) f2 r(6)])
  qed
qed

subsection \<open>The example stores, evaluated\<close>

lemmas ex_defs = ex_queue_def ex_msg_def ex_al_def ex_bo_def ex_cy_def ex_camp_def ex_cfg_def
  ex_cfg5_def ex_env_def ex_env2_def ex_store_def ex_queue_after_def ex_queue_after5_def
  ex_row_def ex_queue_mid5_def ex_midnight_def
  ex_closing_def ex_closed_def ex_env_locked_def

lemmas tick_defs = process_queue_tick_def query_def exec_def select_queued_def joined_def
  process_row_def SEND_PER_SECOND_def MAX_DAILY_PER_CONTACT_def count_sent_today_def sent_on_def
  read_clock_def set_skipped_def set_sending_def set_sent_def set_failed_def upd_msg_def
  started_def count_left_def set_completed_def date_def

lemma ex_queue_keys: "primary_keys ex_queue"
  by (simp add: primary_keys_def ex_defs)

lemma ex_tick:
  "process_queue_tick ex_cfg ex_env ex_queue
     = (None, [Visit 2, Send 2 ''+'' ''Hi'', Visit 1, Send 1 ''+'' ''Hi''], ex_queue_after)"
  by (simp add: tick_defs ex_defs)

lemma ex_tick5:
  "process_queue_tick ex_cfg5 ex_env2 ex_queue
     = (None, [Visit 2, Send 2 ''+'' ''Hi'', Visit 1, Send 1 ''+'' ''Hi'', Visit 3, Visit 4],
        ex_queue_after5)"
  by (simp add: tick_defs ex_defs)

lemma ex_batch5:
  "select_queued (SEND_PER_SECOND ex_cfg5) ex_queue
     = [ex_row 2 2 4 1, ex_row 1 1 5 1] @ ex_row 3 1 6 1 # [ex_row 4 3 7 0]"
  by (simp add: select_queued_def joined_def SEND_PER_SECOND_def ex_defs)

lemma ex_dispatch5:
  "dispatch ex_cfg5 ex_env2 [ex_row 2 2 4 1, ex_row 1 1 5 1] ex_queue
     = (None, [Visit 2, Send 2 ''+'' ''Hi'', Visit 1, Send 1 ''+'' ''Hi''], ex_queue_mid5)"
  by (simp add: tick_defs ex_defs)

lemma ex_tick_closing:
  "process_queue_tick ex_cfg ex_env ex_closing
     = (None, [Visit 1, Send 1 ''+'' ''Hi''], ex_closed)"
  by (simp add: tick_defs ex_defs)

lemma ex_tick_locked:
  "process_queue_tick ex_cfg5 ex_env_locked ex_queue = (Some ''database is locked'', [Visit 2], ex_queue)"
  by (simp add: tick_defs ex_defs)

lemma ex_tick_commit:
  "process_queue_tick ex_cfg ex_env_commit ex_closing
     = (None, [Visit 1, Send 1 ''+'' ''Hi''], ex_closed_failed)"
  by (simp add: tick_defs ex_defs ex_env_commit_def ex_closed_failed_def)

section \<open>Facts about campaign activation\<close>

lemma enqueue_fields [simp]:
  "contacts (enqueue cfg env i camp c w) = contacts w"
  "campaigns (enqueue cfg env i camp c w) = campaigns w"
  by (simp_all add: enqueue_def Let_def)

lemma fold_enqueue:
  "\<exists>new. messages (fold (enqueue cfg env i camp) rs w) = messages w @ new
      \<and> list_all2 (queued_for cfg i camp) rs new
      \<and> contacts (fold (enqueue cfg env i camp) rs w) = contacts w
      \<and> campaigns (fold (enqueue cfg env i camp) rs w) = campaigns w"
proof (induction rs arbitrary: w)
  case Nil
  then show ?case by simp
next
  case (Cons c rs)
  let ?w1 = "enqueue cfg env i camp c w"
  obtain m where m: "messages ?w1 = messages w @ [m]" "queued_for cfg i camp c m"
    by (simp add: enqueue_def Let_def queued_for_def)
  from Cons.IH [of ?w1] obtain new where
    new: "messages (fold (enqueue cfg env i camp) rs ?w1) = messages ?w1 @ new"
      "list_all2 (queued_for cfg i camp) rs new"
      "contacts (fold (enqueue cfg env i camp) rs ?w1) = contacts ?w1"
      "campaigns (fold (enqueue cfg env i camp) rs ?w1) = campaigns ?w1"
    by blast
  show ?case
    using m new by (intro exI [of _ "m # new"]) simp
qed

lemma ex_recipients: "recipients ex_store ex_camp = [ex_al]"
  by code_simp

section \<open>Facts about the batch of a tick\<close>

lemma length_filter_mono:
  "(\<And>x. x \<in> set xs \<Longrightarrow> P x \<Longrightarrow> Q x) \<Longrightarrow> length (filter P xs) \<le> length (filter Q xs)"
  by (induction xs) auto

lemma length_filter_zip_fst:
  "length xs = length ys \<Longrightarrow>
     length (filter (\<lambda>(x, y). P x) (zip xs ys)) = length (filter P xs)"
  by (induction xs ys rule: list_induct2) auto

lemma length_filter_ids_le_card:
  assumes "distinct (map g xs)" and "finite S"
  shows "length (filter (\<lambda>x. g x \<in> S) xs) \<le> card S"
proof -
  have "length (filter (\<lambda>x. g x \<in> S) xs) = length (filter (\<lambda>i. i \<in> S) (map g xs))"
    by (simp add: filter_map comp_def)
  also have "\<dots> = card (set (filter (\<lambda>i. i \<in> S) (map g xs)))"
    using assms(1) distinct_card [of "filter (\<lambda>i. i \<in> S) (map g xs)"] by simp
  also have "\<dots> \<le> card S"
    using assms(2) by (intro card_mono) auto
  finally show ?thesis .
qed

lemma frame_left_queued:
  assumes "frame (set ids) w w'" and "distinct (map m_id (messages w))"
  shows "left_queued w w' \<le> length ids"
proof -
  let ?R = "\<lambda>m m'. static_eq m m' \<and> (m_id m \<notin> set ids \<longrightarrow> m' = m)"
  have l2: "list_all2 ?R (messages w) (messages w')"
    using assms(1) by (simp add: frame_def)
  then have len: "length (messages w) = length (messages w')"
    by (rule list_all2_lengthD)
  have "left_queued w w'
      \<le> length (filter (\<lambda>(m, m'). m_id m \<in> set ids) (zip (messages w) (messages w')))"
    unfolding left_queued_def
  proof (rule length_filter_mono)
    fix p
    assume p: "p \<in> set (zip (messages w) (messages w'))"
      and c: "case p of (m, m') \<Rightarrow> m_status m = Queued \<and> m_status m' \<noteq> Queued"
    obtain m m' where [simp]: "p = (m, m')" by (cases p)
    have "?R m m'"
      using l2 p by (auto simp: list_all2_iff)
    with c show "case p of (m, m') \<Rightarrow> m_id m \<in> set ids"
      by auto
  qed
  also have "\<dots> = length (filter (\<lambda>m. m_id m \<in> set ids) (messages w))"
    using len by (rule length_filter_zip_fst)
  also have "\<dots> \<le> card (set ids)"
    using assms(2) by (rule length_filter_ids_le_card) simp
  also have "\<dots> \<le> length ids"
    by (rule card_length)
  finally show ?thesis .
qed

lemma select_queued_sorted:
  "sorted (map (\<lambda>r. m_created_at (r_msg r)) (select_queued n w))"
proof -
  have "sorted (take n (map (\<lambda>r. m_created_at (r_msg r))
      (sort_key (\<lambda>r. m_created_at (r_msg r)) (joined w))))"
    by (intro sorted_wrt_take) simp
  then show ?thesis
    by (simp add: select_queued_def take_map)
qed

lemma select_queued_oldest:
  assumes "a \<in> set (select_queued n w)" and "b \<in> set (joined w)"
    and "b \<notin> set (select_queued n w)"
  shows "m_created_at (r_msg a) \<le> m_created_at (r_msg b)"
proof -
  let ?k = "\<lambda>r. m_created_at (r_msg r)"
  let ?s = "sort_key ?k (joined w)"
  have "b \<in> set (take n ?s @ drop n ?s)"
    using assms(2) by simp
  with assms(3) have b: "b \<in> set (drop n ?s)"
    by (simp add: select_queued_def del: append_take_drop_id)
  have "sorted (map ?k (take n ?s @ drop n ?s))"
    by simp
  then have "\<forall>x \<in> set (take n ?s). \<forall>y \<in> set (drop n ?s). ?k x \<le> ?k y"
    unfolding map_append sorted_append by auto
  with assms(1) b show ?thesis
    by (simp add: select_queued_def)
qed

lemma tick_visits:
  assumes "process_queue_tick cfg env w = (x, tr, w')"
  shows "(x = None \<longrightarrow> visits tr = row_ids (select_queued (SEND_PER_SECOND cfg) w))
     \<and> (\<exists>k \<le> length (select_queued (SEND_PER_SECOND cfg) w).
           visits tr = take k (row_ids (select_queued (SEND_PER_SECOND cfg) w)))"
proof -
  let ?rows = "select_queued (SEND_PER_SECOND cfg) w"
  have d: "(xd = None \<longrightarrow> visits tr = row_ids ?rows)
      \<and> (\<exists>k \<le> length ?rows. visits tr = take k (row_ids ?rows))"
    if "dispatch cfg env ?rows w = (xd, tr, wd)" for xd wd
  proof -
    from dispatch_visits [OF that]
    have 1: "xd = None \<longrightarrow> visits tr = row_ids ?rows"
      and 2: "\<exists>k. 0 < k \<and> k \<le> length ?rows \<and> visits tr = take k (row_ids ?rows)
             \<or> ?rows = [] \<and> tr = []"
      by blast+
    from 2 obtain k where "0 < k \<and> k \<le> length ?rows \<and> visits tr = take k (row_ids ?rows)
             \<or> ?rows = [] \<and> tr = []" by blast
    then have "\<exists>k \<le> length ?rows. visits tr = take k (row_ids ?rows)"
      by (elim disjE) (auto intro: exI [of _ k] exI [of _ 0])
    with 1 show ?thesis by blast
  qed
  from assms show ?thesis
  proof (cases rule: tick_cases)
    case (select_fault e)
    then show ?thesis by (auto intro: exI [of _ 0])
  next
    case (dispatch_fault e)
    from d [OF dispatch_fault(2)] dispatch_fault(3) show ?thesis by blast
  next
    case (started_fault e)
    from d [OF started_fault(2)] show ?thesis by blast
  next
    case (scanned w1)
    from d [OF scanned(2)] show ?thesis by blast
  qed
qed

section \<open>Facts about one iteration\<close>

lemma frame_dispatch_visits:
  "dispatch cfg env rows w = (x, tr, w') \<Longrightarrow> frame (set (visits tr)) w w'"
proof (induction rows arbitrary: w x tr w')
  case Nil
  then show ?case by simp
next
  case (Cons r rows)
  obtain x1 tr1 w1 where p: "process_row cfg env r w = (x1, tr1, w1)"
    by (cases "process_row cfg env r w") auto
  have f1: "frame (set (visits tr1)) w w1"
    using frame_process_row [OF p] process_row_trace(1) [OF p] by simp
  show ?case
  proof (cases x1)
    case (Some e)
    with Cons.prems p have "w' = w1" "tr = tr1" by simp_all
    with f1 show ?thesis by simp
  next
    case None
    obtain x2 tr2 w2 where d: "dispatch cfg env rows w1 = (x2, tr2, w2)"
      by (cases "dispatch cfg env rows w1") auto
    with Cons.prems p None have "w' = w2" "tr = tr1 @ tr2" by simp_all
    with frame_trans [OF f1 Cons.IH [OF d]] show ?thesis by simp
  qed
qed

lemma frame_tick_visits:
  assumes "process_queue_tick cfg env w = (x, tr, w')"
  shows "frame (set (visits tr)) w w'"
  using assms
proof (cases rule: tick_cases)
  case (scanned w1)
  from frame_trans [OF frame_dispatch_visits [OF scanned(2)] frame_complete_campaigns [OF scanned(4)]]
  show ?thesis by simp
next
  case (select_fault e)
  then show ?thesis by simp
next
  case (dispatch_fault e)
  show ?thesis by (rule frame_dispatch_visits [OF dispatch_fault(2)])
next
  case (started_fault e)
  show ?thesis by (rule frame_dispatch_visits [OF started_fault(2)])
qed

lemma get_msg_set_skipped:
  "get_msg (set_skipped i reason w) j
     = (if j = i then map_option (\<lambda>m. m\<lparr>m_status := Skipped, m_error := Some reason\<rparr>) (get_msg w j)
        else get_msg w j)"
  unfolding set_skipped_def by (rule get_msg_upd) simp

lemma get_msg_set_sending:
  "get_msg (set_sending i w) j
     = (if j = i then map_option (\<lambda>m. m\<lparr>m_status := Sending\<rparr>) (get_msg w j) else get_msg w j)"
  unfolding set_sending_def by (rule get_msg_upd) simp

lemma get_msg_set_sent:
  "get_msg (set_sent i p w) j
     = (if j = i
        then map_option (\<lambda>m. m\<lparr>m_status := Sent, m_provider_id := Some p,
                                 m_sent_at := Some (clock w)\<rparr>) (get_msg w j)
        else get_msg w j)"
  unfolding set_sent_def by (rule get_msg_upd) simp

lemma get_msg_set_failed:
  "get_msg (set_failed i e w) j
     = (if j = i then map_option (\<lambda>m. m\<lparr>m_status := Failed, m_error := Some e\<rparr>) (get_msg w j)
        else get_msg w j)"
  unfolding set_failed_def by (rule get_msg_upd) simp

lemmas get_msg_set = get_msg_set_skipped get_msg_set_sending get_msg_set_sent get_msg_set_failed

text \<open>A message becomes \<open>Sent\<close> only in the iteration of a row with both flags right.\<close>

lemma process_row_sent:
  assumes "process_row cfg env r w = (x, tr, w')"
    and "get_msg w (m_id (r_msg r)) = Some m" and "m_status m \<noteq> Sent"
    and "get_msg w' (m_id (r_msg r)) = Some m'" and "m_status m' = Sent"
  shows "r_consented r = 1 \<and> r_opted_out r \<noteq> 1"
  using assms(1)
proof (cases rule: process_row_cases)
  case no_consent
  with assms(2-5) show ?thesis
    by (auto simp: exec_def get_msg_set split: option.splits)
next
  case (failed e)
  then show ?thesis by simp
qed simp_all

lemma contact_unique:
  "distinct (map c_id cs) \<Longrightarrow> c \<in> set cs \<Longrightarrow> c' \<in> set cs \<Longrightarrow> c_id c = c_id c' \<Longrightarrow> c = c'"
  by (meson distinct_map inj_onD)

section \<open>Facts about the operations\<close>

subsection \<open>Fresh ids\<close>

lemma fold_max_ge: "a \<le> fold max ids (a::int)"
  by (induction ids arbitrary: a) (auto intro: order_trans [OF max.cobounded2])

lemma fold_max_upper: "i \<in> set ids \<Longrightarrow> i \<le> fold max ids (a::int)"
proof (induction ids arbitrary: a)
  case Nil
  then show ?case by simp
next
  case (Cons j ids)
  then show ?case
    using fold_max_ge [of "max j a" ids] by auto
qed

lemma next_id_fresh: "next_id ids \<notin> set ids"
  using fold_max_upper [of "next_id ids" ids 0] by (auto simp: next_id_def)

lemma next_rowid_fresh: "next_rowid seq ids \<notin> set ids"
  using fold_max_upper [of "next_rowid seq ids" ids 0] by (auto simp: next_rowid_def)

subsection \<open>Every operation keeps the primary keys\<close>

lemma process_row_campaigns:
  assumes "process_row cfg env r w = (x, tr, w')"
  shows "campaigns w' = campaigns w"
  using assms
  by (cases rule: process_row_cases)
    (auto simp: exec_def set_skipped_def set_failed_def set_sent_def set_sending_def
      split: option.splits)

lemma dispatch_campaigns:
  assumes "dispatch cfg env rows w = (x, tr, w')"
  shows "campaigns w' = campaigns w"
proof (rule dispatch_invariant [where P = "\<lambda>v. campaigns v = campaigns w", OF _ _ assms])
  show "campaigns w = campaigns w" by simp
next
  fix r v x tr v'
  assume "campaigns v = campaigns w" "process_row cfg env r v = (x, tr, v')"
  then show "campaigns v' = campaigns w"
    using process_row_campaigns by simp
qed

lemma complete_campaigns_ids:
  "complete_campaigns env cs w = (x, w') \<Longrightarrow> map g_id (campaigns w') = map g_id (campaigns w)"
proof (induction cs arbitrary: w x w')
  case Nil
  then show ?case by simp
next
  case (Cons c cs)
  let ?w1 = "set_completed c (read_clock env (MarkCompleted c) w)"
  have ids1: "map g_id (campaigns ?w1) = map g_id (campaigns w)"
    by (simp add: set_completed_def comp_def if_distrib [of g_id] cong: if_cong)
  consider (a) "w' = w" | (b) "complete_campaigns env cs w = (x, w')"
    | (c) "w' = ?w1" | (d) "complete_campaigns env cs ?w1 = (x, w')"
    using Cons.prems
    by (auto simp: query_def exec_def split: option.splits if_splits)
  then show ?case
  proof cases
    case a
    then show ?thesis by simp
  next
    case b
    then show ?thesis by (rule Cons.IH)
  next
    case c
    then show ?thesis using ids1 by simp
  next
    case d
    from Cons.IH [OF d] ids1 show ?thesis by simp
  qed
qed

lemma tick_campaign_ids:
  assumes "process_queue_tick cfg env w = (x, tr, w')"
  shows "map g_id (campaigns w') = map g_id (campaigns w)"
  using assms
proof (cases rule: tick_cases)
  case (select_fault e)
  then show ?thesis by simp
next
  case (dispatch_fault e)
  then show ?thesis using dispatch_campaigns by simp
next
  case (started_fault e)
  then show ?thesis using dispatch_campaigns by simp
next
  case (scanned w1)
  from complete_campaigns_ids [OF scanned(4)] dispatch_campaigns [OF scanned(2)]
  show ?thesis by simp
qed

lemma tick_keys:
  assumes "process_queue_tick cfg env w = (x, tr, w')" and "primary_keys w"
  shows "primary_keys w'"
proof -
  note f = frame_tick [OF assms(1)]
  have "contacts w' = contacts w"
    using f by (simp add: frame_def)
  with frame_ids [OF f] tick_campaign_ids [OF assms(1)] assms(2) show ?thesis
    by (simp add: primary_keys_def)
qed

lemma worker_round_tick:
  "process_queue_tick cfg env w
     = (fst (process_queue_tick cfg env w), fst (snd (process_queue_tick cfg env w)),
        worker_round cfg env w)"
  by (simp add: worker_round_def)

lemma enqueue_keys:
  "distinct (map m_id (messages w)) \<Longrightarrow> distinct (map m_id (messages (enqueue cfg env i camp c w)))"
  using next_id_fresh [of "map m_id (messages w)"] by (simp add: enqueue_def Let_def)

lemma fold_enqueue_keys:
  "distinct (map m_id (messages w)) \<Longrightarrow>
     distinct (map m_id (messages (fold (enqueue cfg env i camp) rs w)))"
  by (induction rs arbitrary: w) (simp_all add: enqueue_keys)

lemma set_started_ids [simp]: "map g_id (campaigns (set_started i w)) = map g_id (campaigns w)"
  by (simp add: set_started_def comp_def if_distrib [of g_id] cong: if_cong)

lemma campaigns_start_keys:
  assumes "primary_keys w"
  shows "primary_keys (snd (campaigns_start cfg env i w))"
proof (cases "get_campaign w i")
  case None
  with assms show ?thesis by (simp add: campaigns_start_def)
next
  case (Some camp)
  let ?w1 = "set_started i (read_clock env (MarkStarted i) w)"
  let ?w2 = "fold (enqueue cfg env i camp) (recipients w camp) ?w1"
  have "distinct (map m_id (messages ?w1))"
    using assms by (simp add: primary_keys_def set_started_def)
  then have "distinct (map m_id (messages ?w2))"
    by (rule fold_enqueue_keys)
  moreover from fold_enqueue [of cfg env i camp "recipients w camp" ?w1]
  have "contacts ?w2 = contacts ?w1" "campaigns ?w2 = campaigns ?w1"
    by blast+
  moreover have "contacts ?w1 = contacts w"
    by (simp add: set_started_def)
  ultimately have "primary_keys ?w2"
    using assms by (simp add: primary_keys_def)
  with Some assms show ?thesis
    by (simp add: campaigns_start_def Let_def)
qed

lemma campaigns_create_keys:
  "primary_keys w \<Longrightarrow> primary_keys (campaigns_create env name tpl tag w)"
  using next_id_fresh [of "map g_id (campaigns w)"]
  by (simp add: campaigns_create_def Let_def primary_keys_def)

lemma upsert_contact_keys:
  "primary_keys w \<Longrightarrow> primary_keys (upsert_contact env name phone tags consented w)"
  using next_rowid_fresh [of "contact_seq w" "map c_id (contacts w)"]
  by (simp add: upsert_contact_def Let_def primary_keys_def comp_def if_distrib [of c_id]
      cong: if_cong)

lemma import_keys:
  "primary_keys w \<Longrightarrow> primary_keys (contacts_import_csv env rows w)"
  unfolding contacts_import_csv_def
  by (induction rows arbitrary: w) (simp_all add: import_row_def Let_def upsert_contact_keys)

lemma apply_op_keys: "primary_keys w \<Longrightarrow> primary_keys (apply_op cfg op w)"
proof (cases op)
  case (Tick env)
  assume "primary_keys w"
  with tick_keys [OF worker_round_tick] Tick show ?thesis by simp
next
  case (Start env i)
  assume "primary_keys w"
  with campaigns_start_keys Start show ?thesis by simp
next
  case (Create env name tpl tag)
  assume "primary_keys w"
  with campaigns_create_keys Create show ?thesis by simp
next
  case (Add env name phone tags consented)
  assume "primary_keys w"
  with upsert_contact_keys Add show ?thesis by (simp add: contacts_add_def)
next
  case (Import env rows)
  assume "primary_keys w"
  with import_keys Import show ?thesis by simp
next
  case (OptOut i)
  assume "primary_keys w"
  with OptOut show ?thesis
    by (simp add: contact_optout_def primary_keys_def comp_def if_distrib [of c_id] cong: if_cong)
next
  case (Unsubscribe phone)
  assume "primary_keys w"
  with Unsubscribe show ?thesis
    by (simp add: unsubscribe_def primary_keys_def comp_def if_distrib [of c_id] cong: if_cong)
next
  case Startup
  assume "primary_keys w"
  with Startup show ?thesis by (simp add: startup_def)
qed

subsection \<open>Only a queued message is ever written\<close>

lemma tick_keeps_unqueued:
  assumes "process_queue_tick cfg env w = (x, tr, w')" and "primary_keys w"
    and "get_msg w i = Some m" and "m_status m \<noteq> Queued"
  shows "get_msg w' i = Some m"
proof -
  let ?rows = "select_queued (SEND_PER_SECOND cfg) w"
  have "i \<notin> set (row_ids ?rows)"
  proof
    assume "i \<in> set (row_ids ?rows)"
    then obtain r where r: "r \<in> set ?rows" "m_id (r_msg r) = i"
      by (auto simp: row_ids_def)
    from select_queued_get_msg [OF assms(2) r(1)] r(2) assms(3) have "r_msg r = m" by simp
    with select_queued_row(2) [OF r(1)] assms(4) show False by simp
  qed
  with frame_tick [OF assms(1)] assms(3) show ?thesis
    by (simp add: frame_get_msg)
qed

lemma find_append_Some: "find P xs = Some x \<Longrightarrow> find P (xs @ ys) = Some x"
  by (induction xs) (auto split: if_splits)

lemma get_msg_append:
  "get_msg w i = Some m \<Longrightarrow> messages w' = messages w @ new \<Longrightarrow> get_msg w' i = Some m"
  by (simp add: get_msg_def find_append_Some)

lemma campaigns_start_keeps:
  assumes "get_msg w i = Some m"
  shows "get_msg (snd (campaigns_start cfg env j w)) i = Some m"
proof (cases "get_campaign w j")
  case None
  with assms show ?thesis by (simp add: campaigns_start_def)
next
  case (Some camp)
  let ?w1 = "set_started j (read_clock env (MarkStarted j) w)"
  let ?w2 = "fold (enqueue cfg env j camp) (recipients w camp) ?w1"
  from fold_enqueue [of cfg env j camp "recipients w camp" ?w1]
  obtain new where "messages ?w2 = messages ?w1 @ new" by blast
  then have "messages ?w2 = messages w @ new"
    by (simp add: set_started_def)
  with assms have "get_msg ?w2 i = Some m"
    by (rule get_msg_append)
  with Some assms show ?thesis
    by (simp add: campaigns_start_def Let_def)
qed

lemma upsert_contact_messages [simp]:
  "messages (upsert_contact env name phone tags consented w) = messages w"
  by (simp add: upsert_contact_def Let_def)

lemma import_messages [simp]: "messages (contacts_import_csv env rows w) = messages w"
  unfolding contacts_import_csv_def
  by (induction rows arbitrary: w) (simp_all add: import_row_def Let_def)

lemma apply_op_keeps_unqueued:
  assumes "primary_keys w" and "get_msg w i = Some m" and "m_status m \<noteq> Queued"
  shows "get_msg (apply_op cfg op w) i = Some m"
proof (cases op)
  case (Tick env)
  with tick_keeps_unqueued [OF worker_round_tick assms] show ?thesis by simp
next
  case (Start env j)
  with campaigns_start_keeps [OF assms(2)] show ?thesis by simp
next
  case (Create env name tpl tag)
  with assms(2) show ?thesis by (simp add: campaigns_create_def Let_def get_msg_def)
next
  case (Add env name phone tags consented)
  with assms(2) show ?thesis by (simp add: contacts_add_def get_msg_def)
next
  case (Import env rows)
  with assms(2) show ?thesis by (simp add: get_msg_def)
next
  case (OptOut j)
  with assms(2) show ?thesis by (simp add: contact_optout_def get_msg_def)
next
  case (Unsubscribe phone)
  with assms(2) show ?thesis by (simp add: unsubscribe_def get_msg_def)
next
  case Startup
  with assms(2) show ?thesis by (simp add: startup_def)
qed

lemma run_keeps_unqueued:
  assumes "primary_keys w" and "get_msg w i = Some m" and "m_status m \<noteq> Queued"
  shows "primary_keys (run cfg ops w) \<and> get_msg (run cfg ops w) i = Some m"
  using assms unfolding run_def
proof (induction ops arbitrary: w)
  case Nil
  then show ?case by simp
next
  case (Cons op ops)
  have "primary_keys (apply_op cfg op w)"
    using Cons.prems(1) by (rule apply_op_keys)
  moreover have "get_msg (apply_op cfg op w) i = Some m"
    using Cons.prems by (rule apply_op_keeps_unqueued)
  ultimately show ?case
    using Cons.IH [of "apply_op cfg op w"] Cons.prems(3) by simp
qed

section \<open>Facts about the outcome of a message\<close>

lemma frame_get_msg_rel:
  assumes "frame S w w'"
  shows "rel_option static_eq (get_msg w i) (get_msg w' i)"
proof -
  have "list_all2 static_eq (messages w) (messages w')"
    using assms unfolding frame_def by (auto elim!: list_all2_mono)
  then have "rel_option static_eq (find (\<lambda>a. m_id a = i) (messages w))
      (find (\<lambda>a. m_id a = i) (messages w'))"
    by (induction rule: list_all2_induct) (auto simp: static_eq_def)
  then show ?thesis
    by (simp add: get_msg_def)
qed

text \<open>
  What the iteration of a row makes of a queued message that satisfies \<open>record_ok\<close>, when
  the \<open>commit\<close> of the \<open>UPDATE\<close> to \<open>sent\<close> does not fail.
\<close>

lemma process_row_record_ok:
  assumes "process_row cfg env r w = (x, tr, w')"
    and "get_msg w (m_id (r_msg r)) = Some m" and "m_status m = Queued" and "record_ok m"
    and "db_fault env (CommitSent (m_id (r_msg r))) = None"
  shows "\<exists>m'. get_msg w' (m_id (r_msg r)) = Some m' \<and> record_ok m'"
  using assms(1)
proof (cases rule: process_row_cases)
  case no_consent
  with assms(2-4) show ?thesis
    by (cases "db_fault env (SkipNoConsent (m_id (r_msg r)))")
      (auto simp: exec_def get_msg_set record_ok_def)
next
  case (count_fault e)
  with assms(2-4) show ?thesis by auto
next
  case cap
  with assms(2-4) show ?thesis
    by (cases "db_fault env (SkipDailyCap (m_id (r_msg r)))")
      (auto simp: exec_def get_msg_set record_ok_def)
next
  case (sending_fault e)
  with assms(2-4) show ?thesis by auto
next
  case (sent p)
  with assms(2-4) show ?thesis
    by (simp add: get_msg_set record_ok_def)
next
  case (failed e)
  with assms(2-4) show ?thesis
    by (cases "db_fault env (MarkFailed (m_id (r_msg r)))")
      (auto simp: exec_def get_msg_set record_ok_def)
next
  case (commit_failed p e)
  with assms(5) show ?thesis by simp
next
  case (rolled_back p e e')
  with assms(5) show ?thesis by simp
qed

lemma tick_records_ok:
  assumes "primary_keys w" and "process_queue_tick cfg env w = (x, tr, w')" and "records_ok w"
    and "\<forall>i. db_fault env (CommitSent i) = None"
  shows "records_ok w'"
proof -
  have "record_ok m'" if m': "m' \<in> set (messages w')" for m'
  proof -
    let ?i = "m_id m'"
    have g': "get_msg w' ?i = Some m'"
      using tick_keys [OF assms(2,1)] m' by (simp add: primary_keys_def get_msg_in)
    show ?thesis
    proof (cases "?i \<in> set (visits tr)")
      case False
      with frame_tick_visits [OF assms(2)] have "get_msg w' ?i = get_msg w ?i"
        by (rule frame_get_msg)
      with g' have "get_msg w ?i = Some m'"
        by simp
      then have "m' \<in> set (messages w)"
        by (rule get_msg_SomeD [THEN conjunct1])
      with assms(3) show ?thesis
        by (simp add: records_ok_def list_all_iff)
    next
      case True
      then have v: "Visit ?i \<in> set tr"
        by (simp add: Visit_in_visits)
      show ?thesis
      proof (rule tick_visit [OF assms(2) v assms(1)])
        fix r w1 x1 tr1 w2
        assume r: "r \<in> set (select_queued (SEND_PER_SECOND cfg) w)" "m_id (r_msg r) = ?i"
          "get_msg w ?i = Some (r_msg r)" "frame (- {?i}) w w1"
          "process_row cfg env r w1 = (x1, tr1, w2)" "frame (- {?i}) w2 w'"
        have g1: "get_msg w1 (m_id (r_msg r)) = Some (r_msg r)"
          using frame_get_msg [OF r(4), of ?i] r(2,3) by simp
        have q: "m_status (r_msg r) = Queued"
          by (rule select_queued_row(2) [OF r(1)])
        have "r_msg r \<in> set (messages w)"
          by (rule select_queued_row(1) [OF r(1)])
        with assms(3) have ok: "record_ok (r_msg r)"
          by (simp add: records_ok_def list_all_iff)
        have "db_fault env (CommitSent (m_id (r_msg r))) = None"
          using assms(4) by simp
        from process_row_record_ok [OF r(5) g1 q ok this] obtain m2
          where m2: "get_msg w2 ?i = Some m2" "record_ok m2"
          using r(2) by auto
        have "get_msg w' ?i = get_msg w2 ?i"
          using frame_get_msg [OF r(6), of ?i] by simp
        with m2 g' show "record_ok m'" by simp
      qed
    qed
  qed
  then show ?thesis
    by (simp add: records_ok_def list_all_iff)
qed

lemma record_ok_exactly_one:
  "record_ok m \<Longrightarrow> m_status m \<noteq> Queued \<Longrightarrow> m_status m \<noteq> Sending \<Longrightarrow> exactly_one m"
  by (cases "m_status m") (auto simp: record_ok_def exactly_one_def)

text \<open>What the provider's answer makes of the message it was called for.\<close>

lemma process_row_provider:
  assumes "process_row cfg env r w = (x, tr, w')"
    and "get_msg w (m_id (r_msg r)) = Some m" and "Send i phone body \<in> set tr"
  shows "i = m_id (r_msg r) \<and> phone = m_to_phone (r_msg r) \<and> body = m_body (r_msg r)"
    and "send_sms env i phone body = Inl e \<Longrightarrow> db_fault env (MarkFailed i) = None \<Longrightarrow>
       x = None \<and> get_msg w' i = Some (m\<lparr>m_status := Failed, m_error := Some e\<rparr>)"
    and "send_sms env i phone body = Inr p \<Longrightarrow> db_fault env (MarkSent i) = None \<Longrightarrow>
       db_fault env (CommitSent i) = None \<Longrightarrow>
       x = None \<and> (\<exists>t. clock w \<le> t \<and> t \<le> clock w' \<and> get_msg w' i
          = Some (m\<lparr>m_status := Sent, m_provider_id := Some p, m_sent_at := Some t\<rparr>))"
    and "send_sms env i phone body = Inr p \<Longrightarrow> db_fault env (MarkSent i) = None \<Longrightarrow>
       db_fault env (CommitSent i) = Some e \<Longrightarrow> db_fault env (MarkFailed i) = None \<Longrightarrow>
       x = None \<and> (\<exists>t. clock w \<le> t \<and> t \<le> clock w' \<and> get_msg w' i
          = Some (m\<lparr>m_status := Failed, m_provider_id := Some p, m_error := Some e,
                     m_sent_at := Some t\<rparr>))"
proof -
  show a: "i = m_id (r_msg r) \<and> phone = m_to_phone (r_msg r) \<and> body = m_body (r_msg r)"
    using process_row_trace(2,3) [OF assms(1)] assms(3) by force
  show "x = None \<and> get_msg w' i = Some (m\<lparr>m_status := Failed, m_error := Some e\<rparr>)"
    if "send_sms env i phone body = Inl e" "db_fault env (MarkFailed i) = None"
    using assms(1)
  proof (cases rule: process_row_cases)
    case (failed e')
    with a that assms(2) show ?thesis
      by (auto simp: exec_def get_msg_set)
  next
    case (sent p')
    with a that show ?thesis by simp
  next
    case (commit_failed p' e')
    with a that show ?thesis by simp
  next
    case (rolled_back p' e' e'')
    with a that show ?thesis by simp
  qed (use assms(3) in simp_all)
  show "x = None \<and> (\<exists>t. clock w \<le> t \<and> t \<le> clock w' \<and> get_msg w' i
          = Some (m\<lparr>m_status := Sent, m_provider_id := Some p, m_sent_at := Some t\<rparr>))"
    if "send_sms env i phone body = Inr p" "db_fault env (MarkSent i) = None"
      "db_fault env (CommitSent i) = None"
    using assms(1)
  proof (cases rule: process_row_cases)
    case (failed e')
    with a that show ?thesis by auto
  next
    case (sent p')
    let ?t = "clock (read_clock env (MarkSent i) (set_sending i (read_clock env (CountSentToday i) w)))"
    have "get_msg w' i = Some (m\<lparr>m_status := Sent, m_provider_id := Some p, m_sent_at := Some ?t\<rparr>)"
      using sent a that assms(2) by (simp add: get_msg_set)
    moreover have "clock w \<le> ?t" "?t \<le> clock w'"
      using sent a by (simp_all add: set_sending_def set_sent_def)
    ultimately show ?thesis
      using sent by blast
  next
    case (commit_failed p' e')
    with a that show ?thesis by simp
  next
    case (rolled_back p' e' e'')
    with a that show ?thesis by simp
  qed (use assms(3) in simp_all)
  show "x = None \<and> (\<exists>t. clock w \<le> t \<and> t \<le> clock w' \<and> get_msg w' i
          = Some (m\<lparr>m_status := Failed, m_provider_id := Some p, m_error := Some e,
                     m_sent_at := Some t\<rparr>))"
    if "send_sms env i phone body = Inr p" "db_fault env (MarkSent i) = None"
      "db_fault env (CommitSent i) = Some e" "db_fault env (MarkFailed i) = None"
    using assms(1)
  proof (cases rule: process_row_cases)
    case (failed e')
    with a that show ?thesis by auto
  next
    case (sent p')
    with a that show ?thesis by simp
  next
    case (commit_failed p' e')
    let ?t = "clock (read_clock env (MarkSent i) (set_sending i (read_clock env (CountSentToday i) w)))"
    have "get_msg w' i = Some (m\<lparr>m_status := Failed, m_provider_id := Some p,
        m_error := Some e, m_sent_at := Some ?t\<rparr>)"
      using commit_failed a that assms(2) by (simp add: get_msg_set)
    moreover have "clock w \<le> ?t" "?t \<le> clock w'"
      using commit_failed a by (simp_all add: set_sending_def set_sent_def set_failed_def)
    ultimately show ?thesis
      using commit_failed by blast
  next
    case (rolled_back p' e' e'')
    with a that show ?thesis by simp
  qed (use assms(3) in simp_all)
qed

lemma dispatch_send_visit:
  "dispatch cfg env rows w = (x, tr, w') \<Longrightarrow> Send i phone body \<in> set tr \<Longrightarrow> Visit i \<in> set tr"
proof (induction rows arbitrary: w x tr w')
  case Nil
  then show ?case by simp
next
  case (Cons r rows)
  obtain x1 tr1 w1 where p: "process_row cfg env r w = (x1, tr1, w1)"
    by (cases "process_row cfg env r w") auto
  have t1: "Send i phone body \<in> set tr1 \<Longrightarrow> Visit i \<in> set tr1"
    using p by (cases rule: process_row_cases) auto
  show ?case
  proof (cases x1)
    case (Some e)
    with Cons.prems p have "tr = tr1" by simp
    with t1 Cons.prems(2) show ?thesis by simp
  next
    case None
    obtain x2 tr2 w2 where d: "dispatch cfg env rows w1 = (x2, tr2, w2)"
      by (cases "dispatch cfg env rows w1") auto
    with Cons.prems p None have "tr = tr1 @ tr2" by simp
    with t1 Cons.IH [OF d] Cons.prems(2) show ?thesis by auto
  qed
qed

lemma tick_send_visit:
  assumes "process_queue_tick cfg env w = (x, tr, w')" and "Send i phone body \<in> set tr"
  shows "Visit i \<in> set tr"
  using assms(1)
proof (cases rule: tick_cases)
  case (select_fault e)
  with assms(2) show ?thesis by simp
next
  case (dispatch_fault e)
  from dispatch_send_visit [OF dispatch_fault(2) assms(2)] show ?thesis .
next
  case (started_fault e)
  from dispatch_send_visit [OF started_fault(2) assms(2)] show ?thesis .
next
  case (scanned w1)
  from dispatch_send_visit [OF scanned(2) assms(2)] show ?thesis .
qed

lemma frame_clock: "frame S w w' \<Longrightarrow> clock w \<le> clock w'"
  by (simp add: frame_def)

section \<open>Facts about the daily cap\<close>

lemma sent_on_read_clock [simp]: "sent_on (read_clock env s w) c d = sent_on w c d"
  by (simp add: sent_on_def)

lemma length_filter_upd_le:
  assumes "\<And>m. m \<in> set ms \<Longrightarrow> m_id m = i \<Longrightarrow> Q (f m) \<Longrightarrow> Q m"
  shows "length (filter Q (map (\<lambda>m. if m_id m = i then f m else m) ms)) \<le> length (filter Q ms)"
  using assms by (induction ms) (auto simp: le_SucI)

lemma length_filter_upd_le_Suc:
  assumes "distinct (map m_id ms)"
  shows "length (filter Q (map (\<lambda>m. if m_id m = i then f m else m) ms)) \<le> Suc (length (filter Q ms))"
  using assms
proof (induction ms)
  case Nil
  then show ?case by simp
next
  case (Cons m ms)
  show ?case
  proof (cases "m_id m = i")
    case True
    with Cons.prems have "\<forall>a \<in> set ms. m_id a \<noteq> i" by (auto simp: image_iff)
    then have "map (\<lambda>m. if m_id m = i then f m else m) ms = ms"
      by (simp add: map_idI)
    with True show ?thesis by simp
  next
    case False
    with Cons show ?thesis by simp
  qed
qed

lemma sent_on_upd_le:
  assumes "\<And>m. m_status (f m) = Sent \<Longrightarrow> m_status m = Sent"
    and "\<And>m. m_contact_id (f m) = m_contact_id m" and "\<And>m. m_sent_at (f m) = m_sent_at m"
  shows "sent_on (upd_msg i f w) c d \<le> sent_on w c d"
  unfolding sent_on_def upd_msg_fields
  by (rule length_filter_upd_le) (auto simp: assms)

lemma sent_on_set_skipped: "sent_on (set_skipped i reason w) c d \<le> sent_on w c d"
  unfolding set_skipped_def by (rule sent_on_upd_le) simp_all

lemma sent_on_set_sending: "sent_on (set_sending i w) c d \<le> sent_on w c d"
  unfolding set_sending_def by (rule sent_on_upd_le) simp_all

lemma sent_on_set_failed: "sent_on (set_failed i e w) c d \<le> sent_on w c d"
  unfolding set_failed_def by (rule sent_on_upd_le) simp_all

lemma length_filter_map_le:
  assumes "\<And>m. m \<in> set ms \<Longrightarrow> Q (h m) \<Longrightarrow> Q m"
  shows "length (filter Q (map h ms)) \<le> length (filter Q ms)"
  using assms by (induction ms) (auto simp: le_SucI)

lemma sent_on_set_failed_sent: "sent_on (set_failed i e (set_sent i p w)) c d \<le> sent_on w c d"
  unfolding sent_on_def set_failed_def set_sent_def upd_msg_fields map_map
  by (rule length_filter_map_le) (auto split: if_splits)

lemma sent_on_set_sent_Suc:
  "distinct (map m_id (messages w)) \<Longrightarrow> sent_on (set_sent i p w) c d \<le> Suc (sent_on w c d)"
  unfolding sent_on_def set_sent_def upd_msg_fields
  by (rule length_filter_upd_le_Suc)

lemma sent_on_set_sent_other:
  assumes "\<And>m. m \<in> set (messages w) \<Longrightarrow> m_id m = i \<Longrightarrow> m_contact_id m \<noteq> c \<or> date (clock w) \<noteq> d"
  shows "sent_on (set_sent i p w) c d \<le> sent_on w c d"
  unfolding sent_on_def set_sent_def upd_msg_fields
  by (rule length_filter_upd_le) (use assms in auto)

lemma date_mono: "s \<le> t \<Longrightarrow> date s \<le> date t"
  by (simp add: date_def div_le_mono)

lemma sent_on_future:
  assumes "no_future w" and "date (clock w) < d"
  shows "sent_on w c d = 0"
proof -
  have "\<not> (m_contact_id m = c \<and> m_status m = Sent \<and> map_option date (m_sent_at m) = Some d)"
    if "m \<in> set (messages w)" for m
  proof (cases "m_sent_at m")
    case None
    then show ?thesis by simp
  next
    case (Some t)
    with assms(1) that have "t \<le> clock w"
      by (auto simp: no_future_def)
    then have "date t \<le> date (clock w)"
      by (rule date_mono)
    with assms(2) Some show ?thesis by simp
  qed
  then show ?thesis
    by (simp add: sent_on_def filter_empty_conv)
qed

lemma no_future_read_clock: "no_future w \<Longrightarrow> no_future (read_clock env s w)"
  by (force simp: no_future_def)

lemma no_future_upd:
  assumes "no_future w" and "\<And>m. m_sent_at (f m) = m_sent_at m \<or> m_sent_at (f m) = Some (clock w)"
  shows "no_future (upd_msg i f w)"
  unfolding no_future_def
proof (intro ballI allI impI)
  fix m t
  assume "m \<in> set (messages (upd_msg i f w))" and t: "m_sent_at m = Some t"
  then obtain m0 where m0: "m0 \<in> set (messages w)" "m = m0 \<or> m = f m0"
    by auto
  from m0(2) assms(2) [of m0] t have "m_sent_at m0 = Some t \<or> t = clock w"
    by auto
  with assms(1) m0(1) show "t \<le> clock (upd_msg i f w)"
    by (auto simp: no_future_def)
qed

lemma no_future_set:
  assumes "no_future w"
  shows "no_future (set_skipped i reason w)" and "no_future (set_sending i w)"
    and "no_future (set_failed i e w)" and "no_future (set_sent i p w)"
  unfolding set_skipped_def set_sending_def set_failed_def set_sent_def
  by (rule no_future_upd [OF assms], simp)+

lemma frame_messages_rel:
  assumes "frame S w w'" and "m' \<in> set (messages w')"
  shows "\<exists>m \<in> set (messages w). static_eq m m'"
proof -
  have "list_all2 static_eq (messages w) (messages w')"
    using assms(1) unfolding frame_def by (auto elim!: list_all2_mono)
  then have "\<forall>y \<in> set (messages w'). \<exists>x \<in> set (messages w). static_eq x y"
    by (induction rule: list_all2_induct) auto
  with assms(2) show ?thesis by blast
qed

lemma rows_match_frame:
  assumes "frame S w w'" and "rows_match rows w"
  shows "rows_match rows w'"
  unfolding rows_match_def
proof (intro ballI impI)
  fix r m'
  assume r: "r \<in> set rows" and m': "m' \<in> set (messages w')" "m_id m' = m_id (r_msg r)"
  from frame_messages_rel [OF assms(1) m'(1)] obtain m where
    "m \<in> set (messages w)" "static_eq m m'" by blast
  with assms(2) r m'(2) show "m_contact_id m' = m_contact_id (r_msg r)"
    by (auto simp: rows_match_def static_eq_def)
qed

lemma exec_result: "exec env s f v = (x, v') \<Longrightarrow> v' = v \<or> v' = f v"
  by (auto simp: exec_def split: option.splits)

lemma cap_ok_le:
  assumes "cap_ok cfg v" and "\<And>c d. sent_on v' c d \<le> sent_on v c d"
  shows "cap_ok cfg v'"
  unfolding cap_ok_def
proof (intro allI)
  fix c d
  have "sent_on v' c d \<le> sent_on v c d" by (rule assms(2))
  also have "\<dots> \<le> MAX_DAILY_PER_CONTACT cfg"
    using assms(1) by (simp add: cap_ok_def)
  finally show "sent_on v' c d \<le> MAX_DAILY_PER_CONTACT cfg" .
qed

lemma cap_ok_set:
  assumes "cap_ok cfg v"
  shows "cap_ok cfg (set_skipped i reason v)" and "cap_ok cfg (set_sending i v)"
    and "cap_ok cfg (set_failed i e v)" and "cap_ok cfg (read_clock env s v)"
proof -
  show "cap_ok cfg (set_skipped i reason v)"
    using assms by (rule cap_ok_le) (rule sent_on_set_skipped)
  show "cap_ok cfg (set_sending i v)"
    using assms by (rule cap_ok_le) (rule sent_on_set_sending)
  show "cap_ok cfg (set_failed i e v)"
    using assms by (rule cap_ok_le) (rule sent_on_set_failed)
  show "cap_ok cfg (read_clock env s v)"
    using assms by (rule cap_ok_le) simp
qed

lemma cap_positive: "1 \<le> MAX_DAILY_PER_CONTACT cfg"
  unfolding MAX_DAILY_PER_CONTACT_def by linarith

text \<open>The step that marks a message \<open>Sent\<close>, after the cap was checked at an earlier reading
  of the clock.\<close>

lemma cap_ok_set_sent:
  assumes d: "distinct (map m_id (messages v))" and nf: "no_future v" and ok: "cap_ok cfg v"
    and own: "\<And>m. m \<in> set (messages v) \<Longrightarrow> m_id m = i \<Longrightarrow> m_contact_id m = c0"
    and below: "sent_on v c0 (date (clock v + a)) < MAX_DAILY_PER_CONTACT cfg"
  shows "cap_ok cfg (set_sent i p (read_clock env s (set_sending i (v\<lparr>clock := clock v + a\<rparr>))))"
    (is "cap_ok cfg (set_sent i p ?v3)")
  unfolding cap_ok_def
proof (intro allI)
  fix c day
  let ?t1 = "clock v + a"
  let ?v2 = "set_sending i (v\<lparr>clock := ?t1\<rparr>)"
  let ?t2 = "clock ?v3"
  have t12: "?t1 \<le> ?t2"
    by (simp add: set_sending_def)
  have le3: "sent_on ?v3 c' d' \<le> sent_on v c' d'" for c' d'
  proof -
    have "sent_on ?v3 c' d' = sent_on ?v2 c' d'" by simp
    also have "\<dots> \<le> sent_on (v\<lparr>clock := ?t1\<rparr>) c' d'" by (rule sent_on_set_sending)
    also have "\<dots> = sent_on v c' d'" by (simp add: sent_on_def)
    finally show ?thesis .
  qed
  have d3: "distinct (map m_id (messages ?v3))"
    using d by (simp add: set_sending_def comp_def if_distrib [of m_id] cong: if_cong)
  have own3: "m_contact_id m = c0" if "m \<in> set (messages ?v3)" "m_id m = i" for m
  proof -
    from that(1) obtain m0 where m0: "m0 \<in> set (messages v)"
      "m = m0 \<or> m = m0\<lparr>m_status := Sending\<rparr>"
      by (auto simp: set_sending_def)
    then have "m_id m0 = m_id m" "m_contact_id m0 = m_contact_id m"
      by auto
    with own [of m0] m0(1) that(2) show ?thesis by simp
  qed
  show "sent_on (set_sent i p ?v3) c day \<le> MAX_DAILY_PER_CONTACT cfg"
  proof (cases "c = c0 \<and> day = date ?t2")
    case False
    have "sent_on (set_sent i p ?v3) c day \<le> sent_on ?v3 c day"
      by (rule sent_on_set_sent_other) (use False own3 in blast)
    also have "\<dots> \<le> sent_on v c day" by (rule le3)
    also have "\<dots> \<le> MAX_DAILY_PER_CONTACT cfg"
      using ok by (simp add: cap_ok_def)
    finally show ?thesis .
  next
    case True
    have "sent_on (set_sent i p ?v3) c day \<le> Suc (sent_on ?v3 c day)"
      using d3 by (rule sent_on_set_sent_Suc)
    also have "\<dots> \<le> Suc (sent_on v c0 (date ?t2))"
      using le3 True by simp
    also have "\<dots> \<le> MAX_DAILY_PER_CONTACT cfg"
    proof (cases "date ?t2 = date ?t1")
      case True
      with below show ?thesis by simp
    next
      case False
      with date_mono [OF t12] have "date ?t1 < date ?t2" by simp
      moreover have "date (clock v) \<le> date ?t1"
        by (rule date_mono) simp
      ultimately have "sent_on v c0 (date ?t2) = 0"
        by (intro sent_on_future [OF nf]) simp
      with cap_positive [of cfg] show ?thesis by simp
    qed
    finally show ?thesis .
  qed
qed

lemma process_row_cap:
  assumes p: "process_row cfg env r v = (x, tr, v')" and r: "r \<in> set rows"
    and d: "distinct (map m_id (messages v))" and nf: "no_future v" and ok: "cap_ok cfg v"
    and rm: "rows_match rows v"
  shows "distinct (map m_id (messages v')) \<and> no_future v' \<and> cap_ok cfg v' \<and> rows_match rows v'"
proof -
  let ?i = "m_id (r_msg r)"
  let ?v1 = "read_clock env (CountSentToday ?i) v"
  note f = frame_process_row [OF p]
  have d': "distinct (map m_id (messages v'))"
    using frame_ids [OF f] d by simp
  have rm': "rows_match rows v'"
    using f rm by (rule rows_match_frame)
  have nf1: "no_future ?v1"
    using nf by (rule no_future_read_clock)
  have ok1: "cap_ok cfg ?v1"
    using ok by (rule cap_ok_set)
  have "no_future v' \<and> cap_ok cfg v'"
    using p
  proof (cases rule: process_row_cases)
    case no_consent
    from exec_result [OF no_consent(2)] show ?thesis
    proof
      assume "v' = v"
      with nf ok show ?thesis by simp
    next
      assume "v' = set_skipped ?i ''no consent or opted out'' v"
      with no_future_set(1) [OF nf] cap_ok_set(1) [OF ok] show ?thesis by simp
    qed
  next
    case (count_fault e)
    with nf ok show ?thesis by simp
  next
    case cap
    from exec_result [OF cap(5)] show ?thesis
    proof
      assume "v' = ?v1"
      with nf1 ok1 show ?thesis by simp
    next
      assume "v' = set_skipped ?i ''daily cap reached'' ?v1"
      with no_future_set(1) [OF nf1] cap_ok_set(1) [OF ok1] show ?thesis by simp
    qed
  next
    case (sending_fault e)
    with nf1 ok1 show ?thesis by simp
  next
    case (failed e)
    let ?v2 = "set_sending ?i ?v1"
    have nf2: "no_future ?v2"
      using nf1 by (rule no_future_set)
    have ok2: "cap_ok cfg ?v2"
      using ok1 by (rule cap_ok_set)
    from exec_result [OF failed(7)] show ?thesis
    proof
      assume "v' = ?v2"
      with nf2 ok2 show ?thesis by simp
    next
      assume "v' = set_failed ?i e ?v2"
      with no_future_set(3) [OF nf2] cap_ok_set(3) [OF ok2] show ?thesis by simp
    qed
  next
    case (sent pid)
    let ?v3 = "read_clock env (MarkSent ?i) (set_sending ?i ?v1)"
    have "no_future ?v3"
      by (intro no_future_read_clock no_future_set nf1)
    then have a: "no_future v'"
      unfolding sent(11) by (rule no_future_set)
    have own: "m_contact_id m = m_contact_id (r_msg r)"
      if "m \<in> set (messages v)" "m_id m = ?i" for m
      using rm r that by (auto simp: rows_match_def)
    have below: "sent_on v (m_contact_id (r_msg r)) (date (clock v + elapsed env (CountSentToday ?i)))
        < MAX_DAILY_PER_CONTACT cfg"
      using sent(4) by (simp add: count_sent_today_def)
    have "cap_ok cfg v'"
      unfolding sent(11) read_clock_def [of env "CountSentToday ?i"]
      by (rule cap_ok_set_sent [OF d nf ok own below])
    with a show ?thesis by simp
  next
    case (commit_failed pid e)
    let ?v3 = "read_clock env (MarkSent ?i) (set_sending ?i ?v1)"
    have nf3: "no_future ?v3"
      by (intro no_future_read_clock no_future_set nf1)
    have ok3: "cap_ok cfg ?v3"
      by (intro cap_ok_set ok1)
    have a: "no_future v'"
      unfolding commit_failed(12) by (intro no_future_set nf3)
    have "cap_ok cfg v'"
      unfolding commit_failed(12) using ok3 by (rule cap_ok_le) (rule sent_on_set_failed_sent)
    with a show ?thesis by simp
  next
    case (rolled_back pid e e')
    let ?v3 = "read_clock env (MarkSent ?i) (set_sending ?i ?v1)"
    have nf3: "no_future ?v3"
      by (intro no_future_read_clock no_future_set nf1)
    have ok3: "cap_ok cfg ?v3"
      by (intro cap_ok_set ok1)
    from nf3 ok3 show ?thesis
      unfolding rolled_back(12) by simp
  qed
  with d' rm' show ?thesis by simp
qed

lemma cap_keep:
  assumes "messages w' = messages w @ new" and "\<forall>m \<in> set new. m_status m = Queued \<and> m_sent_at m = None"
    and "clock w \<le> clock w'" and "no_future w" and "cap_ok cfg w"
  shows "no_future w' \<and> cap_ok cfg w'"
proof -
  have "sent_on w' c d = sent_on w c d" for c d
    using assms(1,2) by (simp add: sent_on_def filter_empty_conv)
  then have "cap_ok cfg w'"
    using assms(5) by (simp add: cap_ok_def)
  moreover have "no_future w'"
    using assms(1-4) by (fastforce simp: no_future_def)
  ultimately show ?thesis by simp
qed

lemma cap_keep_same:
  assumes "messages w' = messages w" and "clock w \<le> clock w'" and "no_future w" and "cap_ok cfg w"
  shows "no_future w' \<and> cap_ok cfg w'"
  using cap_keep [of w' w "[]" cfg] assms by simp

lemma select_queued_rows_match:
  assumes "primary_keys w"
  shows "rows_match (select_queued n w) w"
  unfolding rows_match_def
proof (intro ballI impI)
  fix r m
  assume r: "r \<in> set (select_queued n w)" and m: "m \<in> set (messages w)" "m_id m = m_id (r_msg r)"
  have "distinct (map m_id (messages w))"
    using assms by (simp add: primary_keys_def)
  then have "get_msg w (m_id m) = Some m"
    using m(1) by (rule get_msg_in)
  then have "get_msg w (m_id (r_msg r)) = Some m"
    unfolding m(2) .
  moreover have "get_msg w (m_id (r_msg r)) = Some (r_msg r)"
    by (rule select_queued_get_msg [OF assms r])
  ultimately have "Some m = Some (r_msg r)"
    by (rule trans [OF sym])
  then show "m_contact_id m = m_contact_id (r_msg r)" by simp
qed

lemma dispatch_cap:
  assumes "dispatch cfg env rows w = (x, tr, w')"
    and "distinct (map m_id (messages w))" and "no_future w" and "cap_ok cfg w"
    and "rows_match rows w"
  shows "no_future w' \<and> cap_ok cfg w'"
proof -
  let ?P = "\<lambda>v. distinct (map m_id (messages v)) \<and> no_future v \<and> cap_ok cfg v \<and> rows_match rows v"
  have "?P w'"
  proof (rule dispatch_invariant [where P = ?P, OF _ _ assms(1)])
    show "?P w" using assms(2-5) by simp
  next
    fix r v x tr v'
    assume "r \<in> set rows" "?P v" "process_row cfg env r v = (x, tr, v')"
    then show "?P v'"
      using process_row_cap [of cfg env r v x tr v' rows] by simp
  qed
  then show ?thesis by simp
qed

lemma tick_cap:
  assumes "process_queue_tick cfg env w = (x, tr, w')"
    and "primary_keys w" and "no_future w" and "cap_ok cfg w"
  shows "no_future w' \<and> cap_ok cfg w'"
proof -
  let ?rows = "select_queued (SEND_PER_SECOND cfg) w"
  have d: "distinct (map m_id (messages w))"
    using assms(2) by (simp add: primary_keys_def)
  note rm = select_queued_rows_match [OF assms(2), of "SEND_PER_SECOND cfg"]
  from assms(1) show ?thesis
  proof (cases rule: tick_cases)
    case (select_fault e)
    with assms(3,4) show ?thesis by simp
  next
    case (dispatch_fault e)
    from dispatch_cap [OF dispatch_fault(2) d assms(3,4) rm] show ?thesis .
  next
    case (started_fault e)
    from dispatch_cap [OF started_fault(2) d assms(3,4) rm] show ?thesis .
  next
    case (scanned w1)
    from dispatch_cap [OF scanned(2) d assms(3,4) rm]
    have 1: "no_future w1" "cap_ok cfg w1" by simp_all
    from complete_campaigns_keeps [OF scanned(4)]
    have "messages w' = messages w1" "clock w1 \<le> clock w'" by simp_all
    then show ?thesis
      using 1 by (rule cap_keep_same [where w = w1])
  qed
qed

lemma enqueue_clock: "clock w \<le> clock (enqueue cfg env i camp c w)"
  by (simp add: enqueue_def Let_def)

lemma fold_enqueue_clock: "clock w \<le> clock (fold (enqueue cfg env i camp) rs w)"
proof (induction rs arbitrary: w)
  case Nil
  then show ?case by simp
next
  case (Cons c rs)
  from enqueue_clock [of w cfg env i camp c] Cons [of "enqueue cfg env i camp c w"]
  show ?case by simp
qed

lemma campaigns_start_cap:
  assumes "no_future w" and "cap_ok cfg w"
  shows "no_future (snd (campaigns_start cfg env i w)) \<and> cap_ok cfg (snd (campaigns_start cfg env i w))"
proof (cases "get_campaign w i")
  case None
  with assms show ?thesis by (simp add: campaigns_start_def)
next
  case (Some camp)
  let ?w1 = "set_started i (read_clock env (MarkStarted i) w)"
  let ?w2 = "fold (enqueue cfg env i camp) (recipients w camp) ?w1"
  from fold_enqueue [of cfg env i camp "recipients w camp" ?w1]
  obtain new where new: "messages ?w2 = messages ?w1 @ new"
    "list_all2 (queued_for cfg i camp) (recipients w camp) new" by blast
  have m: "messages ?w2 = messages w @ new"
    using new(1) by (simp add: set_started_def)
  have q: "\<forall>m \<in> set new. m_status m = Queued \<and> m_sent_at m = None"
  proof
    fix m
    assume "m \<in> set new"
    with new(2) obtain c where "queued_for cfg i camp c m"
      by (auto simp: list_all2_conv_all_nth in_set_conv_nth)
    then show "m_status m = Queued \<and> m_sent_at m = None"
      by (simp add: queued_for_def)
  qed
  have "clock w \<le> clock ?w1"
    by (simp add: set_started_def)
  with fold_enqueue_clock [of ?w1 cfg env i camp "recipients w camp"]
  have c: "clock w \<le> clock ?w2" by simp
  from cap_keep [OF m q c assms] Some assms show ?thesis
    by (simp add: campaigns_start_def Let_def)
qed

lemma upsert_contact_clock: "clock w \<le> clock (upsert_contact env name phone tags consented w)"
  by (simp add: upsert_contact_def Let_def)

lemma import_clock: "clock w \<le> clock (contacts_import_csv env rows w)"
  unfolding contacts_import_csv_def
proof (induction rows arbitrary: w)
  case Nil
  then show ?case by simp
next
  case (Cons r rows)
  have "clock w \<le> clock (import_row env r w)"
    by (simp add: import_row_def Let_def upsert_contact_clock)
  with Cons [of "import_row env r w"] show ?case by simp
qed

lemma apply_op_cap:
  assumes "primary_keys w" and "no_future w" and "cap_ok cfg w"
  shows "no_future (apply_op cfg op w) \<and> cap_ok cfg (apply_op cfg op w)"
proof (cases op)
  case (Tick env)
  with tick_cap [OF worker_round_tick assms] show ?thesis by simp
next
  case (Start env j)
  with campaigns_start_cap [OF assms(2,3)] show ?thesis by simp
next
  case (Create env name tpl tag)
  have "no_future (campaigns_create env name tpl tag w) \<and> cap_ok cfg (campaigns_create env name tpl tag w)"
    using assms(2,3) by (intro cap_keep_same [where w = w]) (simp_all add: campaigns_create_def Let_def)
  with Create show ?thesis by simp
next
  case (Add env name phone tags consented)
  have "no_future (contacts_add env name phone tags consented w)
      \<and> cap_ok cfg (contacts_add env name phone tags consented w)"
    using assms(2,3) by (intro cap_keep_same [where w = w]) (simp_all add: contacts_add_def upsert_contact_clock)
  with Add show ?thesis by simp
next
  case (Import env rows)
  have "no_future (contacts_import_csv env rows w) \<and> cap_ok cfg (contacts_import_csv env rows w)"
    using assms(2,3) by (intro cap_keep_same [where w = w]) (simp_all add: import_clock)
  with Import show ?thesis by simp
next
  case (OptOut j)
  have "no_future (contact_optout j w) \<and> cap_ok cfg (contact_optout j w)"
    using assms(2,3) by (intro cap_keep_same [where w = w]) (simp_all add: contact_optout_def)
  with OptOut show ?thesis by simp
next
  case (Unsubscribe phone)
  have "no_future (unsubscribe phone w) \<and> cap_ok cfg (unsubscribe phone w)"
    using assms(2,3) by (intro cap_keep_same [where w = w]) (simp_all add: unsubscribe_def)
  with Unsubscribe show ?thesis by simp
next
  case Startup
  with assms show ?thesis by (simp add: startup_def)
qed

lemma run_cap:
  assumes "primary_keys w" and "no_future w" and "cap_ok cfg w"
  shows "primary_keys (run cfg ops w) \<and> no_future (run cfg ops w) \<and> cap_ok cfg (run cfg ops w)"
  using assms unfolding run_def
proof (induction ops arbitrary: w)
  case Nil
  then show ?case by simp
next
  case (Cons op ops)
  have "primary_keys (apply_op cfg op w)"
    using Cons.prems(1) by (rule apply_op_keys)
  moreover have "no_future (apply_op cfg op w) \<and> cap_ok cfg (apply_op cfg op w)"
    using Cons.prems by (rule apply_op_cap)
  ultimately show ?case
    using Cons.IH [of "apply_op cfg op w"] by simp
qed

lemma process_row_at_cap:
  assumes "r_consented r = 1" and "r_opted_out r \<noteq> 1"
    and "db_fault env (CountSentToday (m_id (r_msg r))) = None"
    and "db_fault env (SkipDailyCap (m_id (r_msg r))) = None"
    and "MAX_DAILY_PER_CONTACT cfg
           \<le> count_sent_today (read_clock env (CountSentToday (m_id (r_msg r))) v)
                (m_contact_id (r_msg r))"
  shows "process_row cfg env r v
     = (None, [Visit (m_id (r_msg r))],
        set_skipped (m_id (r_msg r)) ''daily cap reached''
          (read_clock env (CountSentToday (m_id (r_msg r))) v))"
  using assms by (simp add: process_row_def Let_def query_def exec_def)

lemma dispatch_append:
  "dispatch cfg env (rs1 @ rs2) w =
     (case dispatch cfg env rs1 w of
        (Some e, tr, w1) \<Rightarrow> (Some e, tr, w1)
      | (None, tr, w1) \<Rightarrow>
          (case dispatch cfg env rs2 w1 of (x, tr', w2) \<Rightarrow> (x, tr @ tr', w2)))"
proof (induction rs1 arbitrary: w)
  case Nil
  then show ?case by (simp split: prod.splits)
next
  case (Cons r rs1)
  obtain x1 tr1 w1 where p: "process_row cfg env r w = (x1, tr1, w1)"
    by (cases "process_row cfg env r w") auto
  show ?case
  proof (cases x1)
    case (Some e)
    with p show ?thesis by simp
  next
    case None
    with p Cons [of w1] show ?thesis
      by (simp split: prod.splits option.splits)
  qed
qed

text \<open>
  Within one tick: \<open>v\<close> is the store the rows before \<open>r\<close> have left.  When the count read
  from \<open>v\<close> is at the cap, the message of \<open>r\<close> ends the tick \<open>Skipped\<close>.
\<close>

lemma tick_at_cap:
  assumes keys: "primary_keys w" and tick: "process_queue_tick cfg env w = (x, tr, w')"
    and nf: "db_fault env SelectQueued = None"
    and split: "select_queued (SEND_PER_SECOND cfg) w = rs1 @ r # rs2"
    and before: "dispatch cfg env rs1 w = (None, tr0, v)"
    and elig: "r_consented r = 1" "r_opted_out r \<noteq> 1"
    and ok: "db_fault env (CountSentToday (m_id (r_msg r))) = None"
      "db_fault env (SkipDailyCap (m_id (r_msg r))) = None"
    and cap: "MAX_DAILY_PER_CONTACT cfg
           \<le> count_sent_today (read_clock env (CountSentToday (m_id (r_msg r))) v)
                (m_contact_id (r_msg r))"
  shows "get_msg w' (m_id (r_msg r))
       = Some ((r_msg r)\<lparr>m_status := Skipped, m_error := Some ''daily cap reached''\<rparr>)
     \<and> (\<forall>phone body. Send (m_id (r_msg r)) phone body \<notin> set tr)"
proof -
  let ?i = "m_id (r_msg r)"
  let ?rows = "select_queued (SEND_PER_SECOND cfg) w"
  let ?v1 = "set_skipped ?i ''daily cap reached'' (read_clock env (CountSentToday ?i) v)"
  have dis: "distinct (row_ids rs1 @ ?i # row_ids rs2)"
    using distinct_row_ids [OF keys, of "SEND_PER_SECOND cfg"] split by simp
  have p: "process_row cfg env r v = (None, [Visit ?i], ?v1)"
    using elig ok cap by (rule process_row_at_cap)
  obtain x2 tr2 w2 where d2: "dispatch cfg env rs2 ?v1 = (x2, tr2, w2)"
    by (cases "dispatch cfg env rs2 ?v1") auto
  have "dispatch cfg env (r # rs2) v = (x2, [Visit ?i] @ tr2, w2)"
    using p d2 by simp
  then have d: "dispatch cfg env ?rows w = (x2, tr0 @ [Visit ?i] @ tr2, w2)"
    unfolding split dispatch_append [of cfg env rs1 "r # rs2"] before by simp
  have res: "tr = tr0 @ [Visit ?i] @ tr2 \<and> frame {} w2 w'"
    using tick
  proof (cases rule: tick_cases)
    case (select_fault e)
    with nf show ?thesis by simp
  next
    case (dispatch_fault e)
    with d show ?thesis by simp
  next
    case (started_fault e)
    with d show ?thesis by simp
  next
    case (scanned w1)
    with d have "w1 = w2" "tr = tr0 @ [Visit ?i] @ tr2" by simp_all
    with frame_complete_campaigns [OF scanned(4)] show ?thesis by simp
  qed
  have r_in: "r \<in> set ?rows"
    unfolding split by simp
  have g0: "get_msg w ?i = Some (r_msg r)"
    by (rule select_queued_get_msg [OF keys r_in])
  have "get_msg v ?i = get_msg w ?i"
    using frame_dispatch [OF before] dis by (intro frame_get_msg) auto
  with g0 have g1: "get_msg ?v1 ?i
      = Some ((r_msg r)\<lparr>m_status := Skipped, m_error := Some ''daily cap reached''\<rparr>)"
    by (simp add: get_msg_set)
  have "get_msg w2 ?i = get_msg ?v1 ?i"
    using frame_dispatch [OF d2] dis by (intro frame_get_msg) auto
  moreover have "get_msg w' ?i = get_msg w2 ?i"
    using res by (intro frame_get_msg) auto
  ultimately have a: "get_msg w' ?i
      = Some ((r_msg r)\<lparr>m_status := Skipped, m_error := Some ''daily cap reached''\<rparr>)"
    using g1 by simp
  have "Send ?i phone body \<notin> set tr" for phone body
  proof
    assume "Send ?i phone body \<in> set tr"
    with res have "Send ?i phone body \<in> set tr0 \<or> Send ?i phone body \<in> set tr2"
      by auto
    then have "?i \<in> set (row_ids rs1) \<or> ?i \<in> set (row_ids rs2)"
      using dispatch_events [OF before] dispatch_events [OF d2] by force
    with dis show False by auto
  qed
  with a show ?thesis by blast
qed

section \<open>Facts about campaign completion\<close>

lemma get_campaign_upd:
  assumes "\<And>g. g_id (f g) = g_id g"
  shows "find (\<lambda>g. g_id g = j) (map (\<lambda>g. if g_id g = i then f g else g) gs)
     = (if j = i then map_option f (find (\<lambda>g. g_id g = j) gs) else find (\<lambda>g. g_id g = j) gs)"
  by (induction gs) (auto simp: assms)

lemma get_campaign_set_completed:
  "get_campaign (set_completed i w) j
     = (if j = i then map_option (\<lambda>g. g\<lparr>g_completed_at := Some (clock w)\<rparr>) (get_campaign w j)
        else get_campaign w j)"
  unfolding get_campaign_def set_completed_def
  by (simp add: get_campaign_upd)

lemma get_campaign_set_started:
  "get_campaign (set_started i w) j
     = (if j = i then map_option (\<lambda>g. g\<lparr>g_started_at := Some (clock w)\<rparr>) (get_campaign w j)
        else get_campaign w j)"
  unfolding get_campaign_def set_started_def
  by (simp add: get_campaign_upd)

lemma get_campaign_read_clock [simp]: "get_campaign (read_clock env s w) i = get_campaign w i"
  by (simp add: get_campaign_def)

lemma count_left_set_completed [simp]: "count_left (set_completed c w) i = count_left w i"
  by (simp add: count_left_def set_completed_def)

lemma count_left_read_clock [simp]: "count_left (read_clock env s w) i = count_left w i"
  by (simp add: count_left_def)

text \<open>
  What the scan makes of a campaign: it is left alone, or it was on the list with nothing
  queued or in flight and has its completion time set from the clock.
\<close>

lemma complete_campaigns_only:
  assumes "complete_campaigns env cs w = (x, w')" and "get_campaign w i = Some g"
  shows "get_campaign w' i = Some g
     \<or> (i \<in> set cs \<and> count_left w i = 0
        \<and> (\<exists>t. clock w \<le> t \<and> t \<le> clock w'
              \<and> get_campaign w' i = Some (g\<lparr>g_completed_at := Some t\<rparr>)))"
  using assms
proof (induction cs arbitrary: w g x w')
  case Nil
  then show ?case by simp
next
  case (Cons c cs)
  let ?w1 = "set_completed c (read_clock env (MarkCompleted c) w)"
  consider (stop) "w' = w"
    | (skip) "count_left w c \<noteq> 0" "complete_campaigns env cs w = (x, w')"
    | (mark) "count_left w c = 0" "complete_campaigns env cs ?w1 = (x, w')"
    using Cons.prems(1)
    by (auto simp: query_def exec_def split: option.splits if_splits)
  then show ?case
  proof cases
    case stop
    with Cons.prems(2) show ?thesis by simp
  next
    case skip
    from Cons.IH [OF skip(2) Cons.prems(2)] show ?thesis by auto
  next
    case mark
    note k = complete_campaigns_keeps [OF mark(2)]
    have c1: "clock w \<le> clock ?w1"
      by (simp add: set_completed_def)
    show ?thesis
    proof (cases "i = c")
      case False
      then have "get_campaign ?w1 i = Some g"
        using Cons.prems(2) by (simp add: get_campaign_set_completed)
      from Cons.IH [OF mark(2) this] show ?thesis
      proof
        assume "get_campaign w' i = Some g"
        then show ?thesis by simp
      next
        assume "i \<in> set cs \<and> count_left ?w1 i = 0
          \<and> (\<exists>t. clock ?w1 \<le> t \<and> t \<le> clock w'
                \<and> get_campaign w' i = Some (g\<lparr>g_completed_at := Some t\<rparr>))"
        then obtain t where t: "i \<in> set cs" "count_left w i = 0" "clock ?w1 \<le> t" "t \<le> clock w'"
          "get_campaign w' i = Some (g\<lparr>g_completed_at := Some t\<rparr>)"
          by auto
        from c1 t(3) have "clock w \<le> t" by (rule order_trans)
        with t show ?thesis by auto
      qed
    next
      case True
      let ?t1 = "clock (read_clock env (MarkCompleted c) w)"
      have g1: "get_campaign ?w1 i = Some (g\<lparr>g_completed_at := Some ?t1\<rparr>)"
        using True Cons.prems(2) by (simp add: get_campaign_set_completed)
      have t1: "clock w \<le> ?t1" "?t1 \<le> clock w'"
        using k by (simp_all add: set_completed_def)
      from Cons.IH [OF mark(2) g1]
      have "\<exists>t. clock w \<le> t \<and> t \<le> clock w'
          \<and> get_campaign w' i = Some (g\<lparr>g_completed_at := Some t\<rparr>)"
      proof
        assume "get_campaign w' i = Some (g\<lparr>g_completed_at := Some ?t1\<rparr>)"
        with t1 show ?thesis by blast
      next
        assume "i \<in> set cs \<and> count_left ?w1 i = 0
          \<and> (\<exists>t. clock ?w1 \<le> t \<and> t \<le> clock w'
                \<and> get_campaign w' i
                    = Some (g\<lparr>g_completed_at := Some ?t1\<rparr>\<lparr>g_completed_at := Some t\<rparr>))"
        then obtain t where "clock ?w1 \<le> t" "t \<le> clock w'"
          "get_campaign w' i = Some (g\<lparr>g_completed_at := Some t\<rparr>)"
          by auto
        with c1 show ?thesis
          by (intro exI [of _ t]) simp
      qed
      with True mark(1) show ?thesis by simp
    qed
  qed
qed

lemma complete_campaigns_every:
  assumes "complete_campaigns env cs w = (None, w')" and "get_campaign w i = Some g"
    and "i \<in> set cs" and "count_left w i = 0"
  shows "\<exists>t. clock w \<le> t \<and> t \<le> clock w'
     \<and> get_campaign w' i = Some (g\<lparr>g_completed_at := Some t\<rparr>)"
  using assms
proof (induction cs arbitrary: w g)
  case Nil
  then show ?case by simp
next
  case (Cons c cs)
  let ?w1 = "set_completed c (read_clock env (MarkCompleted c) w)"
  consider (skip) "count_left w c \<noteq> 0" "complete_campaigns env cs w = (None, w')"
    | (mark) "count_left w c = 0" "complete_campaigns env cs ?w1 = (None, w')"
    using Cons.prems(1)
    by (auto simp: query_def exec_def split: option.splits if_splits)
  then show ?case
  proof cases
    case skip
    with Cons.prems(3,4) have "i \<in> set cs" by auto
    from Cons.IH [OF skip(2) Cons.prems(2) this Cons.prems(4)] show ?thesis .
  next
    case mark
    have c1: "clock w \<le> clock ?w1"
      by (simp add: set_completed_def)
    show ?thesis
    proof (cases "i = c")
      case True
      let ?t1 = "clock (read_clock env (MarkCompleted c) w)"
      have g1: "get_campaign ?w1 i = Some (g\<lparr>g_completed_at := Some ?t1\<rparr>)"
        using True Cons.prems(2) by (simp add: get_campaign_set_completed)
      have t1: "clock w \<le> ?t1" "?t1 \<le> clock w'"
        using complete_campaigns_keeps [OF mark(2)] by (simp_all add: set_completed_def)
      from complete_campaigns_only [OF mark(2) g1]
      show ?thesis
      proof
        assume "get_campaign w' i = Some (g\<lparr>g_completed_at := Some ?t1\<rparr>)"
        with t1 show ?thesis by blast
      next
        assume "i \<in> set cs \<and> count_left ?w1 i = 0
          \<and> (\<exists>t. clock ?w1 \<le> t \<and> t \<le> clock w'
                \<and> get_campaign w' i
                    = Some (g\<lparr>g_completed_at := Some ?t1\<rparr>\<lparr>g_completed_at := Some t\<rparr>))"
        then obtain t where "clock ?w1 \<le> t" "t \<le> clock w'"
          "get_campaign w' i = Some (g\<lparr>g_completed_at := Some t\<rparr>)"
          by auto
        with c1 show ?thesis
          by (intro exI [of _ t]) simp
      qed
    next
      case False
      with Cons.prems(3) have in_cs: "i \<in> set cs" by simp
      have g1: "get_campaign ?w1 i = Some g"
        using False Cons.prems(2) by (simp add: get_campaign_set_completed)
      have "count_left ?w1 i = 0"
        using Cons.prems(4) by simp
      from Cons.IH [OF mark(2) g1 in_cs this]
      obtain t where t: "clock ?w1 \<le> t" "t \<le> clock w'"
        "get_campaign w' i = Some (g\<lparr>g_completed_at := Some t\<rparr>)"
        by blast
      from c1 t(1) have "clock w \<le> t" by (rule order_trans)
      with t show ?thesis by blast
    qed
  qed
qed

lemma find_campaign_distinct:
  "distinct (map g_id gs) \<Longrightarrow> g \<in> set gs \<Longrightarrow> find (\<lambda>x. g_id x = g_id g) gs = Some g"
  by (induction gs) (auto simp: image_iff)

lemma started_iff:
  assumes "distinct (map g_id (campaigns w))" and "get_campaign w i = Some g"
  shows "i \<in> set (started w) \<longleftrightarrow> g_started_at g \<noteq> None \<and> g_completed_at g = None"
proof
  assume "i \<in> set (started w)"
  then obtain g' where g': "g' \<in> set (campaigns w)" "g_id g' = i"
    "g_started_at g' \<noteq> None" "g_completed_at g' = None"
    by (auto simp: started_def)
  from find_campaign_distinct [OF assms(1) g'(1)] g'(2) assms(2) have "g' = g"
    by (simp add: get_campaign_def)
  with g' show "g_started_at g \<noteq> None \<and> g_completed_at g = None" by simp
next
  assume h: "g_started_at g \<noteq> None \<and> g_completed_at g = None"
  from assms(2) have "g \<in> set (campaigns w)" "g_id g = i"
    by (auto simp: get_campaign_def find_Some_iff)
  with h show "i \<in> set (started w)"
    by (force simp: started_def)
qed

lemma tick_campaign:
  assumes keys: "primary_keys w" and tick: "process_queue_tick cfg env w = (x, tr, w')"
    and g: "get_campaign w i = Some g"
  shows "get_campaign w' i = Some g
     \<or> (g_started_at g \<noteq> None \<and> g_completed_at g = None \<and> count_left w' i = 0
        \<and> (\<exists>t. clock w \<le> t \<and> t \<le> clock w'
              \<and> get_campaign w' i = Some (g\<lparr>g_completed_at := Some t\<rparr>)))"
    and "x = None \<Longrightarrow> g_started_at g \<noteq> None \<Longrightarrow> g_completed_at g = None \<Longrightarrow>
       count_left w' i = 0 \<Longrightarrow>
       \<exists>t. clock w \<le> t \<and> t \<le> clock w'
          \<and> get_campaign w' i = Some (g\<lparr>g_completed_at := Some t\<rparr>)"
proof -
  have same: "get_campaign v i = Some g" if "dispatch cfg env rows w = (xd, tr, v)" for rows xd v
    using dispatch_campaigns [OF that] g by (simp add: get_campaign_def)
  show "get_campaign w' i = Some g
     \<or> (g_started_at g \<noteq> None \<and> g_completed_at g = None \<and> count_left w' i = 0
        \<and> (\<exists>t. clock w \<le> t \<and> t \<le> clock w'
              \<and> get_campaign w' i = Some (g\<lparr>g_completed_at := Some t\<rparr>)))"
    using tick
  proof (cases rule: tick_cases)
    case (select_fault e)
    with g show ?thesis by simp
  next
    case (dispatch_fault e)
    from same [OF dispatch_fault(2)] show ?thesis by simp
  next
    case (started_fault e)
    from same [OF started_fault(2)] show ?thesis by simp
  next
    case (scanned w1)
    have g1: "get_campaign w1 i = Some g"
      by (rule same [OF scanned(2)])
    have d1: "distinct (map g_id (campaigns w1))"
      using dispatch_campaigns [OF scanned(2)] keys by (simp add: primary_keys_def)
    have c1: "clock w \<le> clock w1"
      using frame_dispatch [OF scanned(2)] by (rule frame_clock)
    have cl: "count_left w' i = count_left w1 i"
      using complete_campaigns_keeps [OF scanned(4)] by (simp add: count_left_def)
    from complete_campaigns_only [OF scanned(4) g1] show ?thesis
    proof
      assume "get_campaign w' i = Some g"
      then show ?thesis by simp
    next
      assume "i \<in> set (started w1) \<and> count_left w1 i = 0
        \<and> (\<exists>t. clock w1 \<le> t \<and> t \<le> clock w'
              \<and> get_campaign w' i = Some (g\<lparr>g_completed_at := Some t\<rparr>))"
      then obtain t where t: "i \<in> set (started w1)" "count_left w1 i = 0"
        "clock w1 \<le> t" "t \<le> clock w'"
        "get_campaign w' i = Some (g\<lparr>g_completed_at := Some t\<rparr>)"
        by auto
      from c1 t(3) have "clock w \<le> t" by (rule order_trans)
      with t cl started_iff [OF d1 g1] show ?thesis by auto
    qed
  qed
  show "\<exists>t. clock w \<le> t \<and> t \<le> clock w'
          \<and> get_campaign w' i = Some (g\<lparr>g_completed_at := Some t\<rparr>)"
    if "x = None" "g_started_at g \<noteq> None" "g_completed_at g = None" "count_left w' i = 0"
    using tick
  proof (cases rule: tick_cases)
    case (select_fault e)
    with that show ?thesis by simp
  next
    case (dispatch_fault e)
    with that show ?thesis by simp
  next
    case (started_fault e)
    with that show ?thesis by simp
  next
    case (scanned w1)
    have g1: "get_campaign w1 i = Some g"
      by (rule same [OF scanned(2)])
    have d1: "distinct (map g_id (campaigns w1))"
      using dispatch_campaigns [OF scanned(2)] keys by (simp add: primary_keys_def)
    have c1: "clock w \<le> clock w1"
      using frame_dispatch [OF scanned(2)] by (rule frame_clock)
    have cl: "count_left w1 i = 0"
      using complete_campaigns_keeps [OF scanned(4)] that(4) by (simp add: count_left_def)
    have st: "i \<in> set (started w1)"
      using started_iff [OF d1 g1] that by simp
    from complete_campaigns_every [OF scanned(4) [unfolded that(1)] g1 st cl]
    obtain t where t: "clock w1 \<le> t" "t \<le> clock w'"
      "get_campaign w' i = Some (g\<lparr>g_completed_at := Some t\<rparr>)"
      by blast
    from c1 t(1) have "clock w \<le> t" by (rule order_trans)
    with t show ?thesis by blast
  qed
qed

lemma fold_enqueue_campaigns:
  "campaigns (fold (enqueue cfg env i camp) rs w) = campaigns w"
  using fold_enqueue [of cfg env i camp rs w] by blast

lemma upsert_contact_campaigns [simp]:
  "campaigns (upsert_contact env name phone tags consented w) = campaigns w"
  by (simp add: upsert_contact_def Let_def)

lemma import_campaigns [simp]: "campaigns (contacts_import_csv env rows w) = campaigns w"
  unfolding contacts_import_csv_def
  by (induction rows arbitrary: w) (simp_all add: import_row_def Let_def)

text \<open>
  What one operation makes of a campaign: its completion time stays, or it was unset, the
  campaign had been started, and a tick has set it.
\<close>

lemma apply_op_campaign:
  assumes "primary_keys w" and "get_campaign w i = Some g"
  shows "\<exists>g'. get_campaign (apply_op cfg op w) i = Some g'
     \<and> (g_completed_at g' = g_completed_at g
        \<or> g_completed_at g = None \<and> g_started_at g \<noteq> None)"
proof (cases op)
  case (Tick env)
  from tick_campaign(1) [OF assms(1) worker_round_tick assms(2), of cfg env]
  have "get_campaign (worker_round cfg env w) i = Some g
     \<or> (g_started_at g \<noteq> None \<and> g_completed_at g = None
        \<and> (\<exists>t. get_campaign (worker_round cfg env w) i = Some (g\<lparr>g_completed_at := Some t\<rparr>)))"
    by blast
  with Tick show ?thesis by auto
next
  case (Start env j)
  show ?thesis
  proof (cases "get_campaign w j")
    case None
    with Start assms(2) show ?thesis by (simp add: campaigns_start_def)
  next
    case (Some camp)
    let ?w1 = "set_started j (read_clock env (MarkStarted j) w)"
    have "get_campaign (apply_op cfg op w) i = get_campaign ?w1 i
        \<or> get_campaign (apply_op cfg op w) i = get_campaign w i"
      using Start Some
      by (simp add: campaigns_start_def Let_def get_campaign_def fold_enqueue_campaigns)
    with assms(2) show ?thesis
      by (cases "i = j") (auto simp: get_campaign_set_started)
  qed
next
  case (Create env name tpl tag)
  with assms(2) show ?thesis
    by (simp add: campaigns_create_def Let_def get_campaign_def find_append_Some)
next
  case (Add env name phone tags consented)
  with assms(2) show ?thesis by (simp add: contacts_add_def get_campaign_def)
next
  case (Import env rows)
  with assms(2) show ?thesis by (simp add: get_campaign_def)
next
  case (OptOut j)
  with assms(2) show ?thesis by (simp add: contact_optout_def get_campaign_def)
next
  case (Unsubscribe phone)
  with assms(2) show ?thesis by (simp add: unsubscribe_def get_campaign_def)
next
  case Startup
  with assms(2) show ?thesis by (simp add: startup_def)
qed

lemma run_completed:
  assumes "primary_keys w" and "get_campaign w i = Some g" and "g_completed_at g = Some t"
  shows "\<exists>g'. get_campaign (run cfg ops w) i = Some g' \<and> g_completed_at g' = Some t"
  using assms unfolding run_def
proof (induction ops arbitrary: w g)
  case Nil
  then show ?case by simp
next
  case (Cons op ops)
  from apply_op_campaign [OF Cons.prems(1,2), of cfg op] Cons.prems(3)
  obtain g1 where g1: "get_campaign (apply_op cfg op w) i = Some g1" "g_completed_at g1 = Some t"
    by auto
  have "primary_keys (apply_op cfg op w)"
    using Cons.prems(1) by (rule apply_op_keys)
  from Cons.IH [OF this g1] show ?case by simp
qed

text \<open>What the count of the scan is zero for.\<close>

lemma count_left_zero:
  "count_left w i = 0 \<longleftrightarrow>
     (\<forall>m \<in> set (messages w). m_campaign_id m = i \<longrightarrow>
        m_status m \<noteq> Queued \<and> m_status m \<noteq> Sending)"
  by (auto simp: count_left_def filter_empty_conv)

section \<open>Facts about exceptions in the loop\<close>

lemma process_row_no_raise:
  assumes "process_row cfg env r v = (x, tr, v')" and "storage_ok env"
  shows "x = None"
  using assms(1)
proof (cases rule: process_row_cases)
  case no_consent
  with assms(2) show ?thesis by (simp add: exec_def storage_ok_def)
next
  case (count_fault e)
  with assms(2) show ?thesis by (simp add: storage_ok_def)
next
  case cap
  with assms(2) show ?thesis by (simp add: exec_def storage_ok_def)
next
  case (sending_fault e)
  with assms(2) show ?thesis by (simp add: storage_ok_def)
next
  case (sent p)
  then show ?thesis by simp
next
  case (failed e)
  with assms(2) show ?thesis by (simp add: exec_def storage_ok_def)
next
  case (commit_failed p e)
  then show ?thesis by simp
next
  case (rolled_back p e e')
  with assms(2) show ?thesis by (simp add: storage_ok_def)
qed

lemma dispatch_no_raise:
  assumes "dispatch cfg env rows w = (x, tr, w')" and "storage_ok env"
  shows "x = None"
  using assms(1)
proof (induction rows arbitrary: w x tr w')
  case Nil
  then show ?case by simp
next
  case (Cons r rows)
  obtain x1 tr1 w1 where p: "process_row cfg env r w = (x1, tr1, w1)"
    by (cases "process_row cfg env r w") auto
  from process_row_no_raise [OF p assms(2)] have x1: "x1 = None" .
  obtain x2 tr2 w2 where d: "dispatch cfg env rows w1 = (x2, tr2, w2)"
    by (cases "dispatch cfg env rows w1") auto
  from Cons.prems p x1 d have "x = x2" by simp
  with Cons.IH [OF d] show ?case by simp
qed

lemma tick_visits_all:
  assumes "process_queue_tick cfg env w = (x, tr, w')" and "storage_ok env"
  shows "visits tr = row_ids (select_queued (SEND_PER_SECOND cfg) w)"
proof -
  have all: "visits tr = row_ids (select_queued (SEND_PER_SECOND cfg) w)"
    if d: "dispatch cfg env (select_queued (SEND_PER_SECOND cfg) w) w = (xd, tr, wd)" for xd wd
  proof -
    from dispatch_no_raise [OF d assms(2)] have "xd = None" .
    with dispatch_visits [OF d] show ?thesis by blast
  qed
  from assms(1) show ?thesis
  proof (cases rule: tick_cases)
    case (select_fault e)
    with assms(2) show ?thesis by (simp add: storage_ok_def)
  next
    case (dispatch_fault e)
    from all [OF dispatch_fault(2)] show ?thesis .
  next
    case (started_fault e)
    from all [OF started_fault(2)] show ?thesis .
  next
    case (scanned w1)
    from all [OF scanned(2)] show ?thesis .
  qed
qed

lemma tick_aborts:
  assumes tick: "process_queue_tick cfg env w = (x, tr, w')"
    and nf: "db_fault env SelectQueued = None"
    and split: "select_queued (SEND_PER_SECOND cfg) w = rs1 @ r # rs2"
    and before: "dispatch cfg env rs1 w = (None, tr0, v)"
    and raised: "process_row cfg env r v = (Some e, tr1, v1)"
  shows "x = Some e \<and> tr = tr0 @ tr1 \<and> w' = v1"
proof -
  have "dispatch cfg env (r # rs2) v = (Some e, tr1, v1)"
    using raised by simp
  then have d: "dispatch cfg env (select_queued (SEND_PER_SECOND cfg) w) w = (Some e, tr0 @ tr1, v1)"
    unfolding split dispatch_append [of cfg env rs1 "r # rs2"] before by simp
  from tick show ?thesis
  proof (cases rule: tick_cases)
    case (select_fault e')
    with nf show ?thesis by simp
  next
    case (dispatch_fault e')
    with d show ?thesis by simp
  next
    case (started_fault e')
    with d show ?thesis by simp
  next
    case (scanned w1)
    with d show ?thesis by simp
  qed
qed

section \<open>Facts about a tick with handlers committing\<close>

subsection \<open>When no handler commits\<close>

lemma interleave_none [simp]: "interleave cfg (\<lambda>s. []) s w = w"
  by (simp add: interleave_def run_def)

lemma process_row_conc_alone: "process_row_conc cfg (\<lambda>s. []) env r w = process_row cfg env r w"
  by (simp add: process_row_conc_def process_row_def Let_def exec_def query_def
      split: option.splits sum.splits)

lemma dispatch_conc_alone: "dispatch_conc cfg (\<lambda>s. []) env rows w = dispatch cfg env rows w"
  by (induction rows arbitrary: w)
    (simp_all add: process_row_conc_alone split: prod.splits option.splits)

lemma complete_campaigns_conc_alone:
  "complete_campaigns_conc cfg (\<lambda>s. []) env cs w = complete_campaigns env cs w"
  by (induction cs arbitrary: w) (simp_all add: Let_def split: sum.splits prod.splits option.splits)

lemma process_queue_tick_conc_alone:
  "process_queue_tick_conc cfg (\<lambda>s. []) env w = process_queue_tick cfg env w"
  by (simp add: process_queue_tick_conc_def process_queue_tick_def dispatch_conc_alone
      complete_campaigns_conc_alone Let_def split: prod.splits option.splits sum.splits)

subsection \<open>What is kept of the messages\<close>

lemma keeps_refl [simp]: "keeps S w w"
  by (simp add: keeps_def)

lemma keeps_trans:
  assumes "keeps S a b" and "keeps T b c"
  shows "keeps (S \<union> T) a c"
  unfolding keeps_def
proof (intro allI conjI impI)
  fix j m
  assume "get_msg a j = Some m"
  with assms(1) obtain m1 where m1: "get_msg b j = Some m1" "static_eq m m1" "j \<notin> S \<longrightarrow> m1 = m"
    unfolding keeps_def by blast
  with assms(2) obtain m2 where m2: "get_msg c j = Some m2" "static_eq m1 m2" "j \<notin> T \<longrightarrow> m2 = m1"
    unfolding keeps_def by blast
  from m1(2) m2(2) have "static_eq m m2"
    by (rule static_eq_trans)
  with m1(3) m2(1,3)
  show "\<exists>m'. get_msg c j = Some m' \<and> static_eq m m' \<and> (j \<notin> S \<union> T \<longrightarrow> m' = m)"
    by auto
next
  fix j m'
  assume h: "get_msg c j = Some m' \<and> m_status m' = Sent \<and> j \<notin> S \<union> T"
  with assms(2) have "get_msg b j = Some m'"
    unfolding keeps_def by blast
  with assms(1) h show "get_msg a j = Some m'"
    unfolding keeps_def by blast
qed

lemma keeps_step: "keeps S a b \<Longrightarrow> keeps S b c \<Longrightarrow> keeps S a c"
  using keeps_trans [of S a b S c] by simp

lemma keeps_mono:
  assumes "keeps S a b" and "S \<subseteq> T"
  shows "keeps T a b"
  unfolding keeps_def
proof (intro allI conjI impI)
  fix j m
  assume "get_msg a j = Some m"
  with assms(1) obtain m1 where "get_msg b j = Some m1" "static_eq m m1" "j \<notin> S \<longrightarrow> m1 = m"
    unfolding keeps_def by blast
  with assms(2) show "\<exists>m'. get_msg b j = Some m' \<and> static_eq m m' \<and> (j \<notin> T \<longrightarrow> m' = m)"
    by auto
next
  fix j m'
  assume "get_msg b j = Some m' \<and> m_status m' = Sent \<and> j \<notin> T"
  with assms(2) have "get_msg b j = Some m' \<and> m_status m' = Sent \<and> j \<notin> S"
    by auto
  with assms(1) show "get_msg a j = Some m'"
    unfolding keeps_def by blast
qed

lemma keeps_same:
  assumes "keeps S a b" and "get_msg a j = Some m" and "j \<notin> S"
  shows "get_msg b j = Some m"
  using assms unfolding keeps_def by blast

lemma keeps_exists:
  assumes "keeps S a b" and "get_msg a j = Some m"
  obtains m' where "get_msg b j = Some m'" "static_eq m m'"
  using assms unfolding keeps_def by blast

lemma keeps_sent:
  assumes "keeps S a b" and "get_msg b j = Some m'" and "m_status m' = Sent" and "j \<notin> S"
  shows "get_msg a j = Some m'"
  using assms unfolding keeps_def by blast

lemma keeps_messages: "messages w' = messages w \<Longrightarrow> keeps S w w'"
  by (simp add: keeps_def get_msg_def)

lemma frame_keeps:
  assumes "frame S w w'"
  shows "keeps S w w'"
  unfolding keeps_def
proof (intro allI conjI impI)
  fix j m
  assume g: "get_msg w j = Some m"
  from frame_get_msg_rel [OF assms, of j] g obtain m' where
    m': "get_msg w' j = Some m'" "static_eq m m'"
    by (auto simp: option_rel_Some1)
  moreover have "m' = m" if "j \<notin> S"
    using frame_get_msg [OF assms that] g m'(1) by simp
  ultimately show "\<exists>m'. get_msg w' j = Some m' \<and> static_eq m m' \<and> (j \<notin> S \<longrightarrow> m' = m)"
    by blast
next
  fix j m'
  assume "get_msg w' j = Some m' \<and> m_status m' = Sent \<and> j \<notin> S"
  then show "get_msg w j = Some m'"
    using frame_get_msg [OF assms, of j] by simp
qed

lemma find_append_cases:
  "find P (xs @ ys) = Some x \<Longrightarrow> find P xs = Some x \<or> find P xs = None \<and> find P ys = Some x"
  by (induction xs) (auto split: if_splits)

lemma keeps_append:
  assumes "messages w' = messages w @ new" and "\<forall>m \<in> set new. m_status m \<noteq> Sent"
  shows "keeps S w w'"
  unfolding keeps_def
proof (intro allI conjI impI)
  fix j m
  assume "get_msg w j = Some m"
  then have "get_msg w' j = Some m"
    using assms(1) by (rule get_msg_append)
  then show "\<exists>m'. get_msg w' j = Some m' \<and> static_eq m m' \<and> (j \<notin> S \<longrightarrow> m' = m)"
    by simp
next
  fix j m'
  assume h: "get_msg w' j = Some m' \<and> m_status m' = Sent \<and> j \<notin> S"
  then have "find (\<lambda>m. m_id m = j) (messages w @ new) = Some m'"
    using assms(1) by (simp add: get_msg_def)
  then have "find (\<lambda>m. m_id m = j) (messages w) = Some m'
      \<or> find (\<lambda>m. m_id m = j) (messages w) = None \<and> find (\<lambda>m. m_id m = j) new = Some m'"
    by (rule find_append_cases)
  moreover have "find (\<lambda>m. m_id m = j) new \<noteq> Some m'"
  proof
    assume "find (\<lambda>m. m_id m = j) new = Some m'"
    then have "m' \<in> set new"
      by (auto simp: find_Some_iff)
    with assms(2) h show False by simp
  qed
  ultimately show "get_msg w j = Some m'"
    by (simp add: get_msg_def)
qed

lemma campaigns_start_appends:
  "\<exists>new. messages (snd (campaigns_start cfg env i w)) = messages w @ new
     \<and> (\<forall>m \<in> set new. m_status m \<noteq> Sent)"
proof (cases "sqlite_int i \<and> get_campaign w i \<noteq> None")
  case False
  then have "messages (snd (campaigns_start cfg env i w)) = messages w @ []"
    by (auto simp: campaigns_start_def)
  then show ?thesis
    by (intro exI [of _ "[]"]) simp
next
  case True
  then obtain camp where camp: "sqlite_int i" "get_campaign w i = Some camp"
    by auto
  let ?w1 = "set_started i (read_clock env (MarkStarted i) w)"
  let ?w2 = "fold (enqueue cfg env i camp) (recipients w camp) ?w1"
  from fold_enqueue [of cfg env i camp "recipients w camp" ?w1]
  obtain new where new: "messages ?w2 = messages ?w1 @ new"
    "list_all2 (queued_for cfg i camp) (recipients w camp) new" by blast
  have m: "messages ?w2 = messages w @ new"
    using new(1) by (simp add: set_started_def)
  have q: "\<forall>m \<in> set new. m_status m \<noteq> Sent"
  proof
    fix m
    assume "m \<in> set new"
    with new(2) obtain c where "queued_for cfg i camp c m"
      by (auto simp: list_all2_conv_all_nth in_set_conv_nth)
    then show "m_status m \<noteq> Sent"
      by (simp add: queued_for_def)
  qed
  have "snd (campaigns_start cfg env i w) = ?w2"
    using camp by (simp add: campaigns_start_def Let_def)
  with m q show ?thesis
    by (intro exI [of _ new]) simp
qed

text \<open>A handler leaves every message there is as it is, and adds no \<open>Sent\<close> message.\<close>

lemma handler_keeps:
  assumes "is_handler op"
  shows "keeps {} w (apply_op cfg op w)"
proof (cases op)
  case (Tick env)
  with assms show ?thesis by simp
next
  case (Start env i)
  from campaigns_start_appends [of cfg env i w] obtain new where
    "messages (snd (campaigns_start cfg env i w)) = messages w @ new"
    "\<forall>m \<in> set new. m_status m \<noteq> Sent"
    by blast
  then have "keeps {} w (snd (campaigns_start cfg env i w))"
    by (rule keeps_append)
  with Start show ?thesis by simp
next
  case (Create env name tpl tag)
  then show ?thesis
    by (intro keeps_messages) (simp add: campaigns_create_def Let_def)
next
  case (Add env name phone tags consented)
  then show ?thesis
    by (intro keeps_messages) (simp add: contacts_add_def)
next
  case (Import env rows)
  then show ?thesis
    by (intro keeps_messages) simp
next
  case (OptOut i)
  then show ?thesis
    by (intro keeps_messages) (simp add: contact_optout_def)
next
  case (Unsubscribe phone)
  then show ?thesis
    by (intro keeps_messages) (simp add: unsubscribe_def)
next
  case Startup
  with assms show ?thesis by simp
qed

lemma run_keeps: "list_all is_handler ops \<Longrightarrow> keeps {} w (run cfg ops w)"
  unfolding run_def
proof (induction ops arbitrary: w)
  case Nil
  then show ?case by simp
next
  case (Cons op ops)
  then have "keeps {} w (apply_op cfg op w)"
    by (simp add: handler_keeps)
  moreover have "keeps {} (apply_op cfg op w) (fold (apply_op cfg) ops (apply_op cfg op w))"
    using Cons by simp
  ultimately have "keeps ({} \<union> {}) w (fold (apply_op cfg) ops (apply_op cfg op w))"
    by (rule keeps_trans)
  then show ?case by simp
qed

lemma interleave_keeps:
  "\<forall>s. list_all is_handler (sched s) \<Longrightarrow> keeps S w (interleave cfg sched s w)"
  unfolding interleave_def by (rule keeps_mono [OF run_keeps]) simp_all

subsection \<open>One iteration of the loop\<close>

lemma process_row_conc_keeps:
  assumes p: "process_row_conc cfg sched env r w = (x, tr, w')"
    and h: "\<forall>s. list_all is_handler (sched s)"
  shows "keeps {m_id (r_msg r)} w w'"
proof -
  let ?i = "m_id (r_msg r)"
  have I: "keeps {?i} w (interleave cfg sched s v)" if "keeps {?i} w v" for s v
    using that by (rule keeps_step) (rule interleave_keeps [OF h])
  have C: "keeps {?i} w (read_clock env s v)" if "keeps {?i} w v" for s v
    using that by (rule keeps_step) (rule frame_keeps [OF frame_read_clock])
  have Sk: "keeps {?i} w (set_skipped ?i reason v)" if "keeps {?i} w v" for reason v
    using that by (rule keeps_step) (rule frame_keeps [OF frame_set_skipped])
  have Sg: "keeps {?i} w (set_sending ?i v)" if "keeps {?i} w v" for v
    using that by (rule keeps_step) (rule frame_keeps [OF frame_set_sending])
  have St: "keeps {?i} w (set_sent ?i p v)" if "keeps {?i} w v" for p v
    using that by (rule keeps_step) (rule frame_keeps [OF frame_set_sent])
  have Fl: "keeps {?i} w (set_failed ?i e v)" if "keeps {?i} w v" for e v
    using that by (rule keeps_step) (rule frame_keeps [OF frame_set_failed])
  have Ck: "keeps {?i} w (v\<lparr>clock := t\<rparr>)" if "keeps {?i} w v" for t v
    using that by (rule keeps_step) (rule keeps_messages, simp)
  show ?thesis
    using p unfolding process_row_conc_def Let_def query_def exec_def
    by (auto split: if_splits option.splits sum.splits intro!: I C Sk Sg St Fl Ck)
qed

lemma process_row_conc_trace:
  assumes "process_row_conc cfg sched env r w = (x, tr, w')"
  shows "\<forall>e \<in> set tr. ev_id e = m_id (r_msg r)" and "Visit (m_id (r_msg r)) \<in> set tr"
  using assms unfolding process_row_conc_def Let_def query_def exec_def
  by (auto split: if_splits option.splits sum.splits)

lemma process_row_conc_skip:
  assumes "process_row_conc cfg sched env r w = (x, tr, w')"
    and "r_consented r \<noteq> 1 \<or> r_opted_out r = 1"
  shows "tr = [Visit (m_id (r_msg r))]"
    and "exec env (SkipNoConsent (m_id (r_msg r)))
           (set_skipped (m_id (r_msg r)) ''no consent or opted out'')
           (interleave cfg sched (SkipNoConsent (m_id (r_msg r))) w) = (x, w')"
  using assms by (auto simp: process_row_conc_def Let_def split: prod.splits)

lemma process_row_conc_sent:
  assumes p: "process_row_conc cfg sched env r w = (x, tr, w')"
    and h: "\<forall>s. list_all is_handler (sched s)"
    and g: "get_msg w (m_id (r_msg r)) = Some m" and q: "m_status m \<noteq> Sent"
    and g': "get_msg w' (m_id (r_msg r)) = Some m'" and s: "m_status m' = Sent"
  shows "r_consented r = 1 \<and> r_opted_out r \<noteq> 1"
proof (rule ccontr)
  let ?i = "m_id (r_msg r)"
  let ?v = "interleave cfg sched (SkipNoConsent ?i) w"
  assume "\<not> (r_consented r = 1 \<and> r_opted_out r \<noteq> 1)"
  then have bad: "r_consented r \<noteq> 1 \<or> r_opted_out r = 1"
    by simp
  have gv: "get_msg ?v ?i = Some m"
    using interleave_keeps [OF h, where S = "{}"] g by (rule keeps_same) simp
  from exec_result [OF process_row_conc_skip(2) [OF p bad]] show False
  proof
    assume "w' = ?v"
    with gv g' q s show False by simp
  next
    assume "w' = set_skipped ?i ''no consent or opted out'' ?v"
    with gv g' have "m' = m\<lparr>m_status := Skipped, m_error := Some ''no consent or opted out''\<rparr>"
      by (simp add: get_msg_set)
    with s show False by simp
  qed
qed

lemma process_row_conc_skipped:
  assumes p: "process_row_conc cfg sched env r w = (x, tr, w')"
    and h: "\<forall>s. list_all is_handler (sched s)"
    and g: "get_msg w (m_id (r_msg r)) = Some m"
    and bad: "r_consented r \<noteq> 1 \<or> r_opted_out r = 1"
    and ok: "db_fault env (SkipNoConsent (m_id (r_msg r))) = None"
  shows "tr = [Visit (m_id (r_msg r))]"
    and "get_msg w' (m_id (r_msg r))
      = Some (m\<lparr>m_status := Skipped, m_error := Some ''no consent or opted out''\<rparr>)"
proof -
  let ?i = "m_id (r_msg r)"
  let ?v = "interleave cfg sched (SkipNoConsent ?i) w"
  show "tr = [Visit ?i]"
    using p bad by (rule process_row_conc_skip)
  have gv: "get_msg ?v ?i = Some m"
    using interleave_keeps [OF h, where S = "{}"] g by (rule keeps_same) simp
  from process_row_conc_skip(2) [OF p bad] ok
  have "w' = set_skipped ?i ''no consent or opted out'' ?v"
    by (simp add: exec_def)
  with gv show "get_msg w' ?i
      = Some (m\<lparr>m_status := Skipped, m_error := Some ''no consent or opted out''\<rparr>)"
    by (simp add: get_msg_set)
qed

subsection \<open>The loop\<close>

lemma row_id_unique:
  assumes "distinct (row_ids (r # rows))" and "r' \<in> set (r # rows)"
    and "m_id (r_msg r') = m_id (r_msg r)"
  shows "r' = r"
proof (rule ccontr)
  assume "r' \<noteq> r"
  with assms(2) have "r' \<in> set rows" by simp
  then have "m_id (r_msg r') \<in> set (row_ids rows)"
    by (simp add: row_ids_def)
  with assms(1,3) show False by simp
qed

lemma dispatch_conc_gate:
  assumes "dispatch_conc cfg sched env rows w = (x, tr, w')" and "distinct (row_ids rows)"
    and h: "\<forall>s. list_all is_handler (sched s)"
  shows "keeps {j. Visit j \<in> set tr} w w'
     \<and> (\<forall>e \<in> set tr. ev_id e \<in> set (row_ids rows))
     \<and> (\<forall>r m. r \<in> set rows \<and> get_msg w (m_id (r_msg r)) = Some m
           \<and> Visit (m_id (r_msg r)) \<in> set tr \<longrightarrow>
          (\<forall>m'. get_msg w' (m_id (r_msg r)) = Some m' \<and> m_status m \<noteq> Sent
                \<and> m_status m' = Sent \<longrightarrow> r_consented r = 1 \<and> r_opted_out r \<noteq> 1)
          \<and> ((r_consented r \<noteq> 1 \<or> r_opted_out r = 1)
               \<and> db_fault env (SkipNoConsent (m_id (r_msg r))) = None \<longrightarrow>
               get_msg w' (m_id (r_msg r))
                 = Some (m\<lparr>m_status := Skipped, m_error := Some ''no consent or opted out''\<rparr>)
               \<and> (\<forall>phone body. Send (m_id (r_msg r)) phone body \<notin> set tr)))"
  using assms(1,2)
proof (induction rows arbitrary: w x tr w')
  case Nil
  then show ?case by simp
next
  case (Cons r0 rows)
  let ?i = "m_id (r_msg r0)"
  obtain x1 tr1 w1 where p: "process_row_conc cfg sched env r0 w = (x1, tr1, w1)"
    by (cases "process_row_conc cfg sched env r0 w") auto
  note k1 = process_row_conc_keeps [OF p h]
  note t1 = process_row_conc_trace [OF p]
  have dis: "?i \<notin> set (row_ids rows)" "distinct (row_ids rows)"
    using Cons.prems(2) by simp_all
  have own: "(\<forall>m'. get_msg w1 ?i = Some m' \<and> m_status m \<noteq> Sent
                \<and> m_status m' = Sent \<longrightarrow> r_consented r0 = 1 \<and> r_opted_out r0 \<noteq> 1)
          \<and> ((r_consented r0 \<noteq> 1 \<or> r_opted_out r0 = 1)
               \<and> db_fault env (SkipNoConsent ?i) = None \<longrightarrow>
               get_msg w1 ?i
                 = Some (m\<lparr>m_status := Skipped, m_error := Some ''no consent or opted out''\<rparr>)
               \<and> tr1 = [Visit ?i])"
    if g: "get_msg w ?i = Some m" for m
    using process_row_conc_sent [OF p h g] process_row_conc_skipped [OF p h g] by blast
  show ?case
  proof (cases x1)
    case (Some e)
    with Cons.prems(1) p have eq: "tr = tr1" "w' = w1" by simp_all
    have a: "keeps {j. Visit j \<in> set tr} w w'"
      using k1 unfolding eq by (rule keeps_mono) (use t1(2) in simp)
    have b: "\<forall>e \<in> set tr. ev_id e \<in> set (row_ids (r0 # rows))"
      using t1(1) eq by simp
    have c: "(\<forall>m'. get_msg w' (m_id (r_msg r)) = Some m' \<and> m_status m \<noteq> Sent
                \<and> m_status m' = Sent \<longrightarrow> r_consented r = 1 \<and> r_opted_out r \<noteq> 1)
          \<and> ((r_consented r \<noteq> 1 \<or> r_opted_out r = 1)
               \<and> db_fault env (SkipNoConsent (m_id (r_msg r))) = None \<longrightarrow>
               get_msg w' (m_id (r_msg r))
                 = Some (m\<lparr>m_status := Skipped, m_error := Some ''no consent or opted out''\<rparr>)
               \<and> (\<forall>phone body. Send (m_id (r_msg r)) phone body \<notin> set tr))"
      if r: "r \<in> set (r0 # rows) \<and> get_msg w (m_id (r_msg r)) = Some m
           \<and> Visit (m_id (r_msg r)) \<in> set tr" for r m
    proof -
      from r eq t1(1) have "m_id (r_msg r) = ?i" by force
      with r Cons.prems(2) have "r = r0"
        by (intro row_id_unique [of r0 rows r]) simp_all
      with r own [of m] eq show ?thesis by auto
    qed
    from a b c show ?thesis by blast
  next
    case None
    obtain x2 tr2 w2 where d: "dispatch_conc cfg sched env rows w1 = (x2, tr2, w2)"
      by (cases "dispatch_conc cfg sched env rows w1") auto
    with Cons.prems(1) p None have eq: "tr = tr1 @ tr2" "w' = w2" by simp_all
    note ih = Cons.IH [OF d dis(2)]
    from ih have k2: "keeps {j. Visit j \<in> set tr2} w1 w2"
      and e2: "\<forall>e \<in> set tr2. ev_id e \<in> set (row_ids rows)"
      by blast+
    have no2: "\<forall>e \<in> set tr2. ev_id e \<noteq> ?i"
      using e2 dis(1) by auto
    then have nv2: "?i \<notin> {j. Visit j \<in> set tr2}"
      by force
    have a: "keeps {j. Visit j \<in> set tr} w w'"
      using keeps_trans [OF k1 k2] unfolding eq by (rule keeps_mono) (use t1(2) in auto)
    have b: "\<forall>e \<in> set tr. ev_id e \<in> set (row_ids (r0 # rows))"
      using t1(1) e2 eq by auto
    have c: "(\<forall>m'. get_msg w' (m_id (r_msg r)) = Some m' \<and> m_status m \<noteq> Sent
                \<and> m_status m' = Sent \<longrightarrow> r_consented r = 1 \<and> r_opted_out r \<noteq> 1)
          \<and> ((r_consented r \<noteq> 1 \<or> r_opted_out r = 1)
               \<and> db_fault env (SkipNoConsent (m_id (r_msg r))) = None \<longrightarrow>
               get_msg w' (m_id (r_msg r))
                 = Some (m\<lparr>m_status := Skipped, m_error := Some ''no consent or opted out''\<rparr>)
               \<and> (\<forall>phone body. Send (m_id (r_msg r)) phone body \<notin> set tr))"
      if r: "r \<in> set (r0 # rows) \<and> get_msg w (m_id (r_msg r)) = Some m
           \<and> Visit (m_id (r_msg r)) \<in> set tr" for r m
    proof (cases "m_id (r_msg r) = ?i")
      case True
      with r Cons.prems(2) have r0: "r = r0"
        by (intro row_id_unique [of r0 rows r]) simp_all
      from r r0 have g: "get_msg w ?i = Some m" by simp
      have c1: "r_consented r0 = 1 \<and> r_opted_out r0 \<noteq> 1"
        if s: "get_msg w2 ?i = Some m' \<and> m_status m \<noteq> Sent \<and> m_status m' = Sent" for m'
      proof -
        from s have "get_msg w2 ?i = Some m'" "m_status m' = Sent" by simp_all
        with k2 have "get_msg w1 ?i = Some m'"
          using nv2 by (rule keeps_sent)
        with own [OF g] s show ?thesis by blast
      qed
      have c2: "get_msg w2 ?i
                 = Some (m\<lparr>m_status := Skipped, m_error := Some ''no consent or opted out''\<rparr>)
               \<and> (\<forall>phone body. Send ?i phone body \<notin> set tr)"
        if s: "(r_consented r0 \<noteq> 1 \<or> r_opted_out r0 = 1)
               \<and> db_fault env (SkipNoConsent ?i) = None"
      proof -
        from own [OF g] s have g1: "get_msg w1 ?i
            = Some (m\<lparr>m_status := Skipped, m_error := Some ''no consent or opted out''\<rparr>)"
          and tr1: "tr1 = [Visit ?i]"
          by blast+
        from k2 g1 nv2 have "get_msg w2 ?i
            = Some (m\<lparr>m_status := Skipped, m_error := Some ''no consent or opted out''\<rparr>)"
          by (rule keeps_same)
        moreover have "Send ?i phone body \<notin> set tr" for phone body
          using tr1 no2 eq by force
        ultimately show ?thesis by blast
      qed
      from c1 c2 show ?thesis
        unfolding r0 eq by blast
    next
      case False
      with r have rin: "r \<in> set rows" by auto
      from r have "get_msg w (m_id (r_msg r)) = Some m" by simp
      with k1 have g1: "get_msg w1 (m_id (r_msg r)) = Some m"
        by (rule keeps_same) (use False in simp)
      have "Visit (m_id (r_msg r)) \<notin> set tr1"
        using t1(1) False by force
      with r eq have v2: "Visit (m_id (r_msg r)) \<in> set tr2" by simp
      from ih rin g1 v2
      have c': "(\<forall>m'. get_msg w2 (m_id (r_msg r)) = Some m' \<and> m_status m \<noteq> Sent
                \<and> m_status m' = Sent \<longrightarrow> r_consented r = 1 \<and> r_opted_out r \<noteq> 1)
          \<and> ((r_consented r \<noteq> 1 \<or> r_opted_out r = 1)
               \<and> db_fault env (SkipNoConsent (m_id (r_msg r))) = None \<longrightarrow>
               get_msg w2 (m_id (r_msg r))
                 = Some (m\<lparr>m_status := Skipped, m_error := Some ''no consent or opted out''\<rparr>)
               \<and> (\<forall>phone body. Send (m_id (r_msg r)) phone body \<notin> set tr2))"
        by blast
      have "Send (m_id (r_msg r)) phone body \<notin> set tr1" for phone body
        using t1(1) False by force
      with c' show ?thesis
        unfolding eq by auto
    qed
    from a b c show ?thesis by blast
  qed
qed

subsection \<open>The tick\<close>

lemma complete_campaigns_conc_keeps:
  assumes "complete_campaigns_conc cfg sched env cs w = (x, w')"
    and h: "\<forall>s. list_all is_handler (sched s)"
  shows "keeps {} w w'"
  using assms(1)
proof (induction cs arbitrary: w)
  case Nil
  then show ?case by simp
next
  case (Cons c cs)
  let ?w0 = "interleave cfg sched (CountLeft c) w"
  let ?v = "interleave cfg sched (MarkCompleted c) ?w0"
  let ?w1 = "set_completed c (read_clock env (MarkCompleted c) ?v)"
  have k0: "keeps {} w ?w0"
    by (rule interleave_keeps [OF h])
  have kv: "keeps {} w ?v"
    using k0 by (rule keeps_step) (rule interleave_keeps [OF h])
  have k1: "keeps {} w ?w1"
    using kv by (rule keeps_step) (rule keeps_messages, simp add: set_completed_def)
  from Cons.prems consider "w' = ?w0" | "w' = ?v"
    | "complete_campaigns_conc cfg sched env cs ?w1 = (x, w')"
    | "complete_campaigns_conc cfg sched env cs ?w0 = (x, w')"
    by (auto simp: Let_def query_def exec_def split: option.splits if_splits)
  then show ?case
  proof cases
    case 1
    with k0 show ?thesis by simp
  next
    case 2
    with kv show ?thesis by simp
  next
    case 3
    from k1 Cons.IH [OF 3] show ?thesis by (rule keeps_step)
  next
    case 4
    from k0 Cons.IH [OF 4] show ?thesis by (rule keeps_step)
  qed
qed

lemma tick_conc_cases [consumes 2, case_names select_fault ran]:
  assumes "process_queue_tick_conc cfg sched env w = (x, tr, w')"
    and h: "\<forall>s. list_all is_handler (sched s)"
  obtains (select_fault) "tr = []" "w' = w"
  | (ran) xd w1 where
      "dispatch_conc cfg sched env (select_queued (SEND_PER_SECOND cfg) w) w = (xd, tr, w1)"
      "keeps {} w1 w'"
proof (cases "db_fault env SelectQueued")
  case (Some e)
  with assms(1) have "tr = []" "w' = w"
    by (simp_all add: process_queue_tick_conc_def query_def)
  then show thesis by (rule select_fault)
next
  case sel: None
  let ?rows = "select_queued (SEND_PER_SECOND cfg) w"
  obtain xd tr1 w1 where d: "dispatch_conc cfg sched env ?rows w = (xd, tr1, w1)"
    by (cases "dispatch_conc cfg sched env ?rows w") auto
  let ?w1' = "interleave cfg sched SelectStarted w1"
  have k1: "keeps {} w1 ?w1'"
    by (rule interleave_keeps [OF h])
  have "tr = tr1 \<and> keeps {} w1 w'"
  proof (cases xd)
    case (Some e)
    with assms(1) sel d show ?thesis
      by (simp add: process_queue_tick_conc_def query_def)
  next
    case xd: None
    show ?thesis
    proof (cases "db_fault env SelectStarted")
      case (Some e)
      with assms(1) sel d xd k1 show ?thesis
        by (simp add: process_queue_tick_conc_def query_def Let_def)
    next
      case None
      obtain x2 w2 where c: "complete_campaigns_conc cfg sched env (started ?w1') ?w1' = (x2, w2)"
        by (cases "complete_campaigns_conc cfg sched env (started ?w1') ?w1'") auto
      from c h have "keeps {} ?w1' w2"
        by (rule complete_campaigns_conc_keeps)
      with k1 have "keeps {} w1 w2"
        by (rule keeps_step)
      moreover from assms(1) sel d xd None c have "tr = tr1" "w' = w2"
        by (simp_all add: process_queue_tick_conc_def query_def Let_def)
      ultimately show ?thesis by simp
    qed
  qed
  with d show thesis
    by (intro ran [of xd w1]) simp_all
qed

text \<open>What the interleaved tick makes of \<open>ex_closing\<close> when Al unsubscribes during it.\<close>

lemmas conc_defs = process_queue_tick_conc_def process_row_conc_def interleave_def run_def
  unsubscribe_def ex_sched_def ex_closed_optout_def

lemma ex_tick_optout:
  "process_queue_tick_conc ex_cfg ex_sched ex_env ex_closing
     = (None, [Visit 1, Send 1 ''+'' ''Hi''], ex_closed_optout)"
  by (simp add: conc_defs tick_defs ex_defs)

section \<open>Claim C1: the consent gate\<close>

text \<open>
  C1, as it is stated, fails.  The tick reads the two flags of a contact once, in the
  \<open>SELECT\<close> that joins every queued message of the batch with its contact, and not again
  when it comes to the message.  In \<open>ex_closing\<close> Al has consented and has not opted out
  when the batch is selected; Al's request to unsubscribe commits before the first
  statement of the iteration for message 1, so that Al is opted out in the database
  during the whole of that iteration and after it; and the provider is called for
  message 1, which ends \<open>Sent\<close>.
\<close>

theorem consent_gate_counterexample:
  "process_queue_tick_conc ex_cfg ex_sched ex_env ex_closing
     = (None, [Visit 1, Send 1 ''+'' ''Hi''], ex_closed_optout)
   \<and> map m_id (messages ex_closing) = [1] \<and> map m_status (messages ex_closing) = [Queued]
   \<and> map m_contact_id (messages ex_closing) = [1]
   \<and> map c_id (contacts ex_closing) = [1] \<and> map c_opted_out (contacts ex_closing) = [0]
   \<and> map c_opted_out (contacts (interleave ex_cfg ex_sched (CountSentToday 1) ex_closing)) = [1]
   \<and> map c_opted_out (contacts ex_closed_optout) = [1]
   \<and> map m_status (messages ex_closed_optout) = [Sent]"
proof -
  have "map c_opted_out (contacts (interleave ex_cfg ex_sched (CountSentToday 1) ex_closing)) = [1]"
    by (simp add: conc_defs ex_defs)
  moreover have "map m_id (messages ex_closing) = [1]" "map m_status (messages ex_closing) = [Queued]"
    "map m_contact_id (messages ex_closing) = [1]"
    "map c_id (contacts ex_closing) = [1]" "map c_opted_out (contacts ex_closing) = [0]"
    "map c_opted_out (contacts ex_closed_optout) = [1]"
    "map m_status (messages ex_closed_optout) = [Sent]"
    by (simp_all add: ex_defs ex_closed_optout_def)
  ultimately show ?thesis
    using ex_tick_optout by simp
qed

text \<open>
  C1, amended.  Take a store whose primary keys hold and whose flags are 0 or 1, and a
  tick that selects its batch from it, with any operations of handlers committing between
  its statements.  Every message that is \<open>Sent\<close> after the tick and was not before it
  belongs to a contact that had \<open>consented = 1\<close> and \<open>opted_out = 0\<close> in the store from which
  the batch was selected; no message that was not in that store is \<open>Sent\<close> after the tick;
  and every message the loop visits whose contact had \<open>consented = 0\<close> or \<open>opted_out = 1\<close> in
  that store is, unless the \<open>UPDATE\<close> itself fails, \<open>Skipped\<close> with the error \<open>no consent or
  opted out\<close> after the tick, and the provider is not called for it.
\<close>

theorem consent_gate_at_selection:
  assumes "primary_keys w" and "flags_ok w" and "\<forall>s. list_all is_handler (sched s)"
    and "process_queue_tick_conc cfg sched env w = (x, tr, w')"
  shows "(\<forall>i m m'. get_msg w i = Some m \<and> m_status m \<noteq> Sent
           \<and> get_msg w' i = Some m' \<and> m_status m' = Sent \<longrightarrow>
           (\<exists>c \<in> set (contacts w). c_id c = m_contact_id m'
               \<and> c_consented c = 1 \<and> c_opted_out c = 0))
     \<and> (\<forall>i m'. get_msg w i = None \<and> get_msg w' i = Some m' \<longrightarrow> m_status m' \<noteq> Sent)
     \<and> (\<forall>i m c. Visit i \<in> set tr \<and> get_msg w i = Some m
           \<and> c \<in> set (contacts w) \<and> c_id c = m_contact_id m
           \<and> (c_consented c = 0 \<or> c_opted_out c = 1)
           \<and> db_fault env (SkipNoConsent i) = None \<longrightarrow>
           get_msg w' i = Some (m\<lparr>m_status := Skipped,
                                   m_error := Some ''no consent or opted out''\<rparr>)
           \<and> (\<forall>phone body. Send i phone body \<notin> set tr))"
  using assms(4,3)
proof (cases rule: tick_conc_cases)
  case select_fault
  then show ?thesis by auto
next
  case (ran xd w1)
  let ?rows = "select_queued (SEND_PER_SECOND cfg) w"
  have dist: "distinct (row_ids ?rows)"
    using assms(1) by (rule distinct_row_ids)
  note gate = dispatch_conc_gate [OF ran(1) dist assms(3)]
  from gate have k1: "keeps {j. Visit j \<in> set tr} w w1"
    and ev: "\<forall>e \<in> set tr. ev_id e \<in> set (row_ids ?rows)"
    by blast+
  have k: "keeps {j. Visit j \<in> set tr} w w'"
    using keeps_trans [OF k1 ran(2)] by simp
  have visited: "\<exists>r \<in> set ?rows. m_id (r_msg r) = i \<and> get_msg w i = Some (r_msg r)"
    if "Visit i \<in> set tr" for i
  proof -
    from ev that have "ev_id (Visit i) \<in> set (row_ids ?rows)"
      by blast
    then obtain r where r: "r \<in> set ?rows" "m_id (r_msg r) = i"
      by (auto simp: row_ids_def)
    with select_queued_get_msg [OF assms(1) r(1)] show ?thesis
      by auto
  qed
  have part1: "\<exists>c \<in> set (contacts w). c_id c = m_contact_id m'
      \<and> c_consented c = 1 \<and> c_opted_out c = 0"
    if s: "get_msg w i = Some m \<and> m_status m \<noteq> Sent
      \<and> get_msg w' i = Some m' \<and> m_status m' = Sent" for i m m'
  proof -
    have v: "Visit i \<in> set tr"
    proof (rule ccontr)
      assume "Visit i \<notin> set tr"
      then have ni: "i \<notin> {j. Visit j \<in> set tr}" by simp
      from s have "get_msg w i = Some m" by simp
      with k have "get_msg w' i = Some m"
        using ni by (rule keeps_same)
      with s show False by auto
    qed
    from visited [OF v] obtain r where r: "r \<in> set ?rows" "m_id (r_msg r) = i"
      "get_msg w i = Some (r_msg r)"
      by blast
    with s have m: "r_msg r = m" by simp
    from s have "get_msg w' i = Some m'" "m_status m' = Sent" by simp_all
    with ran(2) have g1: "get_msg w1 i = Some m'"
      by (rule keeps_sent) simp
    from gate r(1,2,3) v g1 s m have fl: "r_consented r = 1 \<and> r_opted_out r \<noteq> 1"
      by blast
    from select_queued_row(3) [OF r(1)] obtain c where c: "c \<in> set (contacts w)"
      "c_id c = m_contact_id (r_msg r)" "r_consented r = c_consented c"
      "r_opted_out r = c_opted_out c"
      by blast
    from s have "get_msg w i = Some m" by simp
    with k obtain m'' where "get_msg w' i = Some m''" "static_eq m m''"
      by (rule keeps_exists)
    with s have "m_contact_id m' = m_contact_id m"
      by (simp add: static_eq_def)
    moreover have "c_opted_out c = 0"
      using fl c(1,4) assms(2) by (auto simp: flags_ok_def)
    ultimately show ?thesis
      using c fl m by auto
  qed
  have part2: "m_status m' \<noteq> Sent"
    if s: "get_msg w i = None \<and> get_msg w' i = Some m'" for i m'
  proof
    assume sent: "m_status m' = Sent"
    have "Visit i \<notin> set tr"
      using visited [of i] s by auto
    then have ni: "i \<notin> {j. Visit j \<in> set tr}" by simp
    from s have "get_msg w' i = Some m'" by simp
    with k have "get_msg w i = Some m'"
      using sent ni by (rule keeps_sent)
    with s show False by simp
  qed
  have part3: "get_msg w' i = Some (m\<lparr>m_status := Skipped,
                                 m_error := Some ''no consent or opted out''\<rparr>)
      \<and> (\<forall>phone body. Send i phone body \<notin> set tr)"
    if s: "Visit i \<in> set tr \<and> get_msg w i = Some m
      \<and> c \<in> set (contacts w) \<and> c_id c = m_contact_id m
      \<and> (c_consented c = 0 \<or> c_opted_out c = 1)
      \<and> db_fault env (SkipNoConsent i) = None" for i m c
  proof -
    from s visited [of i] obtain r where r: "r \<in> set ?rows" "m_id (r_msg r) = i"
      "get_msg w i = Some (r_msg r)"
      by blast
    with s have m: "r_msg r = m" by simp
    from select_queued_row(3) [OF r(1)] obtain c' where c': "c' \<in> set (contacts w)"
      "c_id c' = m_contact_id (r_msg r)" "r_consented r = c_consented c'"
      "r_opted_out r = c_opted_out c'"
      by blast
    have "c' = c"
      using contact_unique [of "contacts w" c' c] assms(1) c'(1,2) s m
      by (simp add: primary_keys_def)
    with c' s have bad: "r_consented r \<noteq> 1 \<or> r_opted_out r = 1"
      by auto
    from gate r s bad
    have g1: "get_msg w1 i = Some (m\<lparr>m_status := Skipped,
        m_error := Some ''no consent or opted out''\<rparr>)"
      and ns: "\<forall>phone body. Send i phone body \<notin> set tr"
      by blast+
    from ran(2) g1 have "get_msg w' i = Some (m\<lparr>m_status := Skipped,
        m_error := Some ''no consent or opted out''\<rparr>)"
      by (rule keeps_same) simp
    with ns show ?thesis by blast
  qed
  have p1: "\<forall>i m m'. get_msg w i = Some m \<and> m_status m \<noteq> Sent
           \<and> get_msg w' i = Some m' \<and> m_status m' = Sent \<longrightarrow>
           (\<exists>c \<in> set (contacts w). c_id c = m_contact_id m'
               \<and> c_consented c = 1 \<and> c_opted_out c = 0)"
    by (intro allI impI) (rule part1)
  have p2: "\<forall>i m'. get_msg w i = None \<and> get_msg w' i = Some m' \<longrightarrow> m_status m' \<noteq> Sent"
    by (intro allI impI) (rule part2)
  have p3: "\<forall>i m c. Visit i \<in> set tr \<and> get_msg w i = Some m
           \<and> c \<in> set (contacts w) \<and> c_id c = m_contact_id m
           \<and> (c_consented c = 0 \<or> c_opted_out c = 1)
           \<and> db_fault env (SkipNoConsent i) = None \<longrightarrow>
           get_msg w' i = Some (m\<lparr>m_status := Skipped,
                                   m_error := Some ''no consent or opted out''\<rparr>)
           \<and> (\<forall>phone body. Send i phone body \<notin> set tr)"
    by (intro allI impI) (rule part3)
  show ?thesis
    by (rule conjI [OF p1 conjI [OF p2 p3]])
qed

text \<open>
  In \<open>ex_closing\<close>, with Al unsubscribing during the tick, message 1 is sent, and Al had
  consented and had not opted out when the batch was selected.  In \<open>ex_queue\<close>, with no
  handler committing, message 4 of Cy, who has not consented, is skipped.
\<close>

theorem consent_gate_at_selection_witness:
  "primary_keys ex_closing \<and> flags_ok ex_closing
   \<and> list_all is_handler [Unsubscribe ''+1'']
   \<and> process_queue_tick_conc ex_cfg ex_sched ex_env ex_closing
       = (None, [Visit 1, Send 1 ''+'' ''Hi''], ex_closed_optout)
   \<and> get_msg ex_closing 1 = Some (ex_msg 1 1 5 Queued)
   \<and> m_status (the (get_msg ex_closed_optout 1)) = Sent
   \<and> m_contact_id (the (get_msg ex_closed_optout 1)) = 1
   \<and> contacts ex_closing = [ex_al]
   \<and> c_id ex_al = 1 \<and> c_consented ex_al = 1 \<and> c_opted_out ex_al = 0
   \<and> get_msg ex_closing 2 = None \<and> get_msg ex_closed_optout 2 = None
   \<and> primary_keys ex_queue \<and> flags_ok ex_queue
   \<and> process_queue_tick_conc ex_cfg5 (\<lambda>s. []) ex_env2 ex_queue
       = (None, [Visit 2, Send 2 ''+'' ''Hi'', Visit 1, Send 1 ''+'' ''Hi'', Visit 3, Visit 4],
          ex_queue_after5)
   \<and> get_msg ex_queue 4 = Some (ex_msg 4 3 7 Queued)
   \<and> ex_cy \<in> set (contacts ex_queue) \<and> c_id ex_cy = 3 \<and> c_consented ex_cy = 0
   \<and> db_fault ex_env2 (SkipNoConsent 4) = None
   \<and> get_msg ex_queue_after5 4
       = Some ((ex_msg 4 3 7 Queued)\<lparr>m_status := Skipped,
                                          m_error := Some ''no consent or opted out''\<rparr>)
   \<and> Send 4 ''+'' ''Hi''
       \<notin> set [Visit 2, Send 2 ''+'' ''Hi'', Visit 1, Send 1 ''+'' ''Hi'', Visit 3, Visit 4]"
proof -
  have k: "primary_keys ex_closing" and fl: "flags_ok ex_closing"
    and fq: "flags_ok ex_queue"
    by (simp_all add: primary_keys_def flags_ok_def ex_defs)
  have hs: "\<forall>s. list_all is_handler (ex_sched s)"
    by (simp add: ex_sched_def)
  have h0: "\<forall>s::stmt. list_all is_handler []"
    by simp
  have t5: "process_queue_tick_conc ex_cfg5 (\<lambda>s. []) ex_env2 ex_queue
       = (None, [Visit 2, Send 2 ''+'' ''Hi'', Visit 1, Send 1 ''+'' ''Hi'', Visit 3, Visit 4],
          ex_queue_after5)"
    unfolding process_queue_tick_conc_alone by (rule ex_tick5)
  have sent: "get_msg ex_closing 1 = Some (ex_msg 1 1 5 Queued)
      \<and> m_status (ex_msg 1 1 5 Queued) \<noteq> Sent
      \<and> get_msg ex_closed_optout 1 = Some (the (get_msg ex_closed_optout 1))
      \<and> m_status (the (get_msg ex_closed_optout 1)) = Sent"
    by (simp add: get_msg_def ex_defs ex_closed_optout_def)
  from consent_gate_at_selection [OF k fl hs ex_tick_optout, THEN conjunct1, rule_format, OF sent]
  obtain c where c: "c \<in> set (contacts ex_closing)"
    "c_id c = m_contact_id (the (get_msg ex_closed_optout 1))"
    "c_consented c = 1" "c_opted_out c = 0"
    by blast
  have cs: "contacts ex_closing = [ex_al]"
    by (simp add: ex_defs)
  with c have al: "c_id ex_al = m_contact_id (the (get_msg ex_closed_optout 1))"
    "c_consented ex_al = 1" "c_opted_out ex_al = 0"
    by simp_all
  have pre: "Visit 4 \<in> set [Visit 2, Send 2 ''+'' ''Hi'', Visit 1, Send 1 ''+'' ''Hi'', Visit 3, Visit 4]
      \<and> get_msg ex_queue 4 = Some (ex_msg 4 3 7 Queued)
      \<and> ex_cy \<in> set (contacts ex_queue) \<and> c_id ex_cy = m_contact_id (ex_msg 4 3 7 Queued)
      \<and> (c_consented ex_cy = 0 \<or> c_opted_out ex_cy = 1)
      \<and> db_fault ex_env2 (SkipNoConsent 4) = None"
    by (simp add: get_msg_def ex_defs)
  from consent_gate_at_selection [OF ex_queue_keys fq h0 t5, THEN conjunct2, THEN conjunct2,
      rule_format, OF pre]
  have skipped: "get_msg ex_queue_after5 4
       = Some ((ex_msg 4 3 7 Queued)\<lparr>m_status := Skipped,
                                          m_error := Some ''no consent or opted out''\<rparr>)
     \<and> (\<forall>phone body. Send 4 phone body
       \<notin> set [Visit 2, Send 2 ''+'' ''Hi'', Visit 1, Send 1 ''+'' ''Hi'', Visit 3, Visit 4])" .
  have rest: "list_all is_handler [Unsubscribe ''+1'']"
    "m_status (the (get_msg ex_closed_optout 1)) = Sent"
    "m_contact_id (the (get_msg ex_closed_optout 1)) = 1" "c_id ex_al = 1"
    "get_msg ex_closing 2 = None" "get_msg ex_closed_optout 2 = None"
    "c_id ex_cy = 3" "c_consented ex_cy = 0"
    by (simp_all add: get_msg_def ex_defs ex_closed_optout_def)
  from k fl fq ex_tick_optout sent al cs pre skipped rest ex_queue_keys t5 show ?thesis
    by simp
qed

section \<open>Claim C2: the daily cap\<close>

text \<open>
  C2.  The cap is between 1 and 20.  Take a store whose primary keys hold, in which no
  sent time lies after the clock and in which no contact has more \<open>Sent\<close> messages with
  sent time on one calendar day than the cap.  Then the same is true after any sequence
  of operations, whatever the environments of its ticks.  The count a tick compares with
  the cap is the number of the contact's \<open>Sent\<close> messages whose sent time falls on the
  calendar day of the clock.  It is read from the store that the earlier rows of the same
  tick have left: when that count is at or above the cap, the message of the row is
  \<open>Skipped\<close> with the error \<open>daily cap reached\<close> after the tick and the provider is not
  called for it (unless one of the statements involved fails).
\<close>

theorem daily_cap_enforced:
  assumes "primary_keys w" and "no_future w" and "cap_ok cfg w"
  shows "1 \<le> MAX_DAILY_PER_CONTACT cfg \<and> MAX_DAILY_PER_CONTACT cfg \<le> 20
     \<and> cap_ok cfg (run cfg ops w) \<and> no_future (run cfg ops w)
     \<and> (\<forall>v c. count_sent_today v c = sent_on v c (date (clock v)))
     \<and> (\<forall>env x tr w' rs1 r rs2 tr0 v.
           process_queue_tick cfg env w = (x, tr, w') \<and> db_fault env SelectQueued = None
           \<and> select_queued (SEND_PER_SECOND cfg) w = rs1 @ r # rs2
           \<and> dispatch cfg env rs1 w = (None, tr0, v)
           \<and> r_consented r = 1 \<and> r_opted_out r \<noteq> 1
           \<and> db_fault env (CountSentToday (m_id (r_msg r))) = None
           \<and> db_fault env (SkipDailyCap (m_id (r_msg r))) = None
           \<and> MAX_DAILY_PER_CONTACT cfg
                 \<le> count_sent_today (read_clock env (CountSentToday (m_id (r_msg r))) v)
                      (m_contact_id (r_msg r)) \<longrightarrow>
           get_msg w' (m_id (r_msg r))
             = Some ((r_msg r)\<lparr>m_status := Skipped, m_error := Some ''daily cap reached''\<rparr>)
           \<and> (\<forall>phone body. Send (m_id (r_msg r)) phone body \<notin> set tr))"
proof -
  have a: "1 \<le> MAX_DAILY_PER_CONTACT cfg \<and> MAX_DAILY_PER_CONTACT cfg \<le> 20"
    unfolding MAX_DAILY_PER_CONTACT_def by linarith
  have b: "cap_ok cfg (run cfg ops w) \<and> no_future (run cfg ops w)"
    using run_cap [OF assms, of ops] by simp
  have c: "\<forall>v c. count_sent_today v c = sent_on v c (date (clock v))"
    by (simp add: count_sent_today_def)
  have d: "\<forall>env x tr w' rs1 r rs2 tr0 v.
           process_queue_tick cfg env w = (x, tr, w') \<and> db_fault env SelectQueued = None
           \<and> select_queued (SEND_PER_SECOND cfg) w = rs1 @ r # rs2
           \<and> dispatch cfg env rs1 w = (None, tr0, v)
           \<and> r_consented r = 1 \<and> r_opted_out r \<noteq> 1
           \<and> db_fault env (CountSentToday (m_id (r_msg r))) = None
           \<and> db_fault env (SkipDailyCap (m_id (r_msg r))) = None
           \<and> MAX_DAILY_PER_CONTACT cfg
                 \<le> count_sent_today (read_clock env (CountSentToday (m_id (r_msg r))) v)
                      (m_contact_id (r_msg r)) \<longrightarrow>
           get_msg w' (m_id (r_msg r))
             = Some ((r_msg r)\<lparr>m_status := Skipped, m_error := Some ''daily cap reached''\<rparr>)
           \<and> (\<forall>phone body. Send (m_id (r_msg r)) phone body \<notin> set tr)"
  proof (intro allI impI)
    fix env x tr w' rs1 r rs2 tr0 v
    assume h: "process_queue_tick cfg env w = (x, tr, w') \<and> db_fault env SelectQueued = None
           \<and> select_queued (SEND_PER_SECOND cfg) w = rs1 @ r # rs2
           \<and> dispatch cfg env rs1 w = (None, tr0, v)
           \<and> r_consented r = 1 \<and> r_opted_out r \<noteq> 1
           \<and> db_fault env (CountSentToday (m_id (r_msg r))) = None
           \<and> db_fault env (SkipDailyCap (m_id (r_msg r))) = None
           \<and> MAX_DAILY_PER_CONTACT cfg
                 \<le> count_sent_today (read_clock env (CountSentToday (m_id (r_msg r))) v)
                      (m_contact_id (r_msg r))"
    show "get_msg w' (m_id (r_msg r))
             = Some ((r_msg r)\<lparr>m_status := Skipped, m_error := Some ''daily cap reached''\<rparr>)
           \<and> (\<forall>phone body. Send (m_id (r_msg r)) phone body \<notin> set tr)"
      by (rule tick_at_cap [OF assms(1), of cfg env x tr w' rs1 r rs2 tr0 v]) (use h in simp_all)
  qed
  show ?thesis
    by (rule conjI [OF a [THEN conjunct1] conjI [OF a [THEN conjunct2]
          conjI [OF b [THEN conjunct1] conjI [OF b [THEN conjunct2] conjI [OF c d]]]]])
qed

theorem daily_cap_enforced_witness:
  "primary_keys ex_queue \<and> no_future ex_queue \<and> cap_ok ex_cfg5 ex_queue
   \<and> MAX_DAILY_PER_CONTACT ex_cfg5 = 1
   \<and> run ex_cfg5 [Tick ex_env2] ex_queue = ex_queue_after5
   \<and> cap_ok ex_cfg5 ex_queue_after5
   \<and> sent_on ex_queue_after5 1 0 = 1
   \<and> process_queue_tick ex_cfg5 ex_env2 ex_queue
       = (None, [Visit 2, Send 2 ''+'' ''Hi'', Visit 1, Send 1 ''+'' ''Hi'', Visit 3, Visit 4],
          ex_queue_after5)
   \<and> select_queued (SEND_PER_SECOND ex_cfg5) ex_queue
       = [ex_row 2 2 4 1, ex_row 1 1 5 1] @ ex_row 3 1 6 1 # [ex_row 4 3 7 0]
   \<and> dispatch ex_cfg5 ex_env2 [ex_row 2 2 4 1, ex_row 1 1 5 1] ex_queue
       = (None, [Visit 2, Send 2 ''+'' ''Hi'', Visit 1, Send 1 ''+'' ''Hi''], ex_queue_mid5)
   \<and> count_sent_today (read_clock ex_env2 (CountSentToday 3) ex_queue_mid5) 1 = 1
   \<and> get_msg ex_queue_after5 3
       = Some ((ex_msg 3 1 6 Queued)\<lparr>m_status := Skipped, m_error := Some ''daily cap reached''\<rparr>)
   \<and> Send 3 ''+'' ''Hi''
       \<notin> set [Visit 2, Send 2 ''+'' ''Hi'', Visit 1, Send 1 ''+'' ''Hi'', Visit 3, Visit 4]
   \<and> date 86399 = 0 \<and> date 86401 = 1 \<and> count_sent_today ex_midnight 1 = 0"
proof -
  have nf: "no_future ex_queue"
    by (simp add: no_future_def ex_defs)
  have ok: "cap_ok ex_cfg5 ex_queue"
    by (simp add: cap_ok_def sent_on_def MAX_DAILY_PER_CONTACT_def ex_defs)
  note inst = daily_cap_enforced [OF ex_queue_keys nf ok, of "[Tick ex_env2]"]
  have r: "run ex_cfg5 [Tick ex_env2] ex_queue = ex_queue_after5"
    by (simp add: run_def worker_round_def ex_tick5)
  have cnt: "count_sent_today (read_clock ex_env2 (CountSentToday 3) ex_queue_mid5) 1 = 1"
    by (simp add: count_sent_today_def sent_on_def read_clock_def date_def ex_defs)
  have cap1: "MAX_DAILY_PER_CONTACT ex_cfg5 = 1"
    by (simp add: MAX_DAILY_PER_CONTACT_def ex_defs)
  have row3: "m_id (r_msg (ex_row 3 1 6 1)) = 3" "m_contact_id (r_msg (ex_row 3 1 6 1)) = 1"
    "r_msg (ex_row 3 1 6 1) = ex_msg 3 1 6 Queued"
    "r_consented (ex_row 3 1 6 1) = 1" "r_opted_out (ex_row 3 1 6 1) \<noteq> 1"
    "m_id (ex_msg 3 1 6 Queued) = 3"
    by (simp_all add: ex_row_def ex_msg_def)
  have nofault: "db_fault ex_env2 SelectQueued = None"
    "db_fault ex_env2 (CountSentToday (m_id (r_msg (ex_row 3 1 6 1)))) = None"
    "db_fault ex_env2 (SkipDailyCap (m_id (r_msg (ex_row 3 1 6 1)))) = None"
    by (simp_all add: ex_env2_def ex_env_def)
  have atcap: "MAX_DAILY_PER_CONTACT ex_cfg5
            \<le> count_sent_today
                 (read_clock ex_env2 (CountSentToday (m_id (r_msg (ex_row 3 1 6 1)))) ex_queue_mid5)
                 (m_contact_id (r_msg (ex_row 3 1 6 1)))"
    unfolding row3(1,2) cnt cap1 by simp
  have pre: "process_queue_tick ex_cfg5 ex_env2 ex_queue
         = (None, [Visit 2, Send 2 ''+'' ''Hi'', Visit 1, Send 1 ''+'' ''Hi'', Visit 3, Visit 4],
            ex_queue_after5)
      \<and> db_fault ex_env2 SelectQueued = None
      \<and> select_queued (SEND_PER_SECOND ex_cfg5) ex_queue
         = [ex_row 2 2 4 1, ex_row 1 1 5 1] @ ex_row 3 1 6 1 # [ex_row 4 3 7 0]
      \<and> dispatch ex_cfg5 ex_env2 [ex_row 2 2 4 1, ex_row 1 1 5 1] ex_queue
         = (None, [Visit 2, Send 2 ''+'' ''Hi'', Visit 1, Send 1 ''+'' ''Hi''], ex_queue_mid5)
      \<and> r_consented (ex_row 3 1 6 1) = 1 \<and> r_opted_out (ex_row 3 1 6 1) \<noteq> 1
      \<and> db_fault ex_env2 (CountSentToday (m_id (r_msg (ex_row 3 1 6 1)))) = None
      \<and> db_fault ex_env2 (SkipDailyCap (m_id (r_msg (ex_row 3 1 6 1)))) = None
      \<and> MAX_DAILY_PER_CONTACT ex_cfg5
            \<le> count_sent_today
                 (read_clock ex_env2 (CountSentToday (m_id (r_msg (ex_row 3 1 6 1)))) ex_queue_mid5)
                 (m_contact_id (r_msg (ex_row 3 1 6 1)))"
    by (intro conjI) (rule ex_tick5 ex_batch5 ex_dispatch5 row3(4) row3(5) nofault atcap)+
  from inst pre have "get_msg ex_queue_after5 (m_id (r_msg (ex_row 3 1 6 1)))
        = Some ((r_msg (ex_row 3 1 6 1))\<lparr>m_status := Skipped, m_error := Some ''daily cap reached''\<rparr>)
      \<and> (\<forall>phone body. Send (m_id (r_msg (ex_row 3 1 6 1))) phone body
        \<notin> set [Visit 2, Send 2 ''+'' ''Hi'', Visit 1, Send 1 ''+'' ''Hi'', Visit 3, Visit 4])"
    by blast
  then have p: "get_msg ex_queue_after5 3
        = Some ((ex_msg 3 1 6 Queued)\<lparr>m_status := Skipped, m_error := Some ''daily cap reached''\<rparr>)"
    "Send 3 ''+'' ''Hi''
        \<notin> set [Visit 2, Send 2 ''+'' ''Hi'', Visit 1, Send 1 ''+'' ''Hi'', Visit 3, Visit 4]"
    by (simp_all add: row3)
  from inst have ok': "cap_ok ex_cfg5 (run ex_cfg5 [Tick ex_env2] ex_queue)"
    by blast
  have rest: "sent_on ex_queue_after5 1 0 = 1"
    "date 86399 = 0" "date 86401 = 1" "count_sent_today ex_midnight 1 = 0"
    by (simp_all add: sent_on_def count_sent_today_def date_def ex_defs)
  from ex_queue_keys nf ok cap1 r ok' rest cnt p ex_tick5 ex_batch5 ex_dispatch5 show ?thesis
    by simp
qed

section \<open>Claim C3: batch bound and ordering\<close>

text \<open>
  C3.  The rate limit is between 1 and 30.  A tick selects at most that many rows, each
  the row of a \<open>Queued\<close> message, ordered by creation time, and no row left out is older
  than a selected one.  The loop visits the selected rows in their order (all of them
  when the tick returns normally, a prefix of them otherwise), and the number of
  messages that were \<open>Queued\<close> before the tick and are not after it is at most the rate
  limit.
\<close>

theorem tick_batch_bound_and_order:
  assumes "primary_keys w" and "process_queue_tick cfg env w = (x, tr, w')"
  shows "1 \<le> SEND_PER_SECOND cfg \<and> SEND_PER_SECOND cfg \<le> 30
     \<and> length (select_queued (SEND_PER_SECOND cfg) w) \<le> SEND_PER_SECOND cfg
     \<and> (\<forall>r \<in> set (select_queued (SEND_PER_SECOND cfg) w).
           r_msg r \<in> set (messages w) \<and> m_status (r_msg r) = Queued)
     \<and> sorted (map (\<lambda>r. m_created_at (r_msg r)) (select_queued (SEND_PER_SECOND cfg) w))
     \<and> (\<forall>a \<in> set (select_queued (SEND_PER_SECOND cfg) w).
         \<forall>b \<in> set (joined w) - set (select_queued (SEND_PER_SECOND cfg) w).
           m_created_at (r_msg a) \<le> m_created_at (r_msg b))
     \<and> (\<exists>k \<le> length (select_queued (SEND_PER_SECOND cfg) w).
           visits tr = take k (row_ids (select_queued (SEND_PER_SECOND cfg) w)))
     \<and> (x = None \<longrightarrow> visits tr = row_ids (select_queued (SEND_PER_SECOND cfg) w))
     \<and> left_queued w w' \<le> SEND_PER_SECOND cfg"
proof -
  let ?rows = "select_queued (SEND_PER_SECOND cfg) w"
  have a: "1 \<le> SEND_PER_SECOND cfg \<and> SEND_PER_SECOND cfg \<le> 30"
    unfolding SEND_PER_SECOND_def by linarith
  have b: "length ?rows \<le> SEND_PER_SECOND cfg"
    by (rule select_queued_length)
  have c: "\<forall>r \<in> set ?rows. r_msg r \<in> set (messages w) \<and> m_status (r_msg r) = Queued"
    using select_queued_row(1,2) by blast
  have d: "sorted (map (\<lambda>r. m_created_at (r_msg r)) ?rows)"
    by (rule select_queued_sorted)
  have e: "\<forall>a \<in> set ?rows. \<forall>b \<in> set (joined w) - set ?rows.
      m_created_at (r_msg a) \<le> m_created_at (r_msg b)"
    using select_queued_oldest by blast
  note f = tick_visits [OF assms(2)]
  have "left_queued w w' \<le> length (row_ids ?rows)"
    using frame_tick [OF assms(2)] assms(1)
    by (intro frame_left_queued) (simp_all add: primary_keys_def)
  with b have g: "left_queued w w' \<le> SEND_PER_SECOND cfg"
    by (simp add: row_ids_def)
  from a b c d e f g show ?thesis by blast
qed

theorem tick_batch_bound_and_order_witness:
  "primary_keys ex_queue
   \<and> process_queue_tick ex_cfg ex_env ex_queue
       = (None, [Visit 2, Send 2 ''+'' ''Hi'', Visit 1, Send 1 ''+'' ''Hi''], ex_queue_after)
   \<and> SEND_PER_SECOND ex_cfg = 2
   \<and> row_ids (select_queued (SEND_PER_SECOND ex_cfg) ex_queue) = [2, 1]
   \<and> visits [Visit 2, Send 2 ''+'' ''Hi'', Visit 1, Send 1 ''+'' ''Hi''] = [2, 1]
   \<and> left_queued ex_queue ex_queue_after \<le> 2
   \<and> map m_status (messages ex_queue_after) = [Sent, Sent, Queued, Queued, Sending, Sent]"
proof -
  from tick_batch_bound_and_order [OF ex_queue_keys ex_tick]
  have "visits [Visit 2, Send 2 ''+'' ''Hi'', Visit 1, Send 1 ''+'' ''Hi'']
          = row_ids (select_queued (SEND_PER_SECOND ex_cfg) ex_queue)"
    and "left_queued ex_queue ex_queue_after \<le> SEND_PER_SECOND ex_cfg"
    by blast+
  moreover have "SEND_PER_SECOND ex_cfg = 2"
    by (simp add: SEND_PER_SECOND_def ex_defs)
  moreover have "visits [Visit 2, Send 2 ''+'' ''Hi'', Visit 1, Send 1 ''+'' ''Hi''] = [2, 1]"
    by (simp add: visits_def)
  moreover have "map m_status (messages ex_queue_after) = [Sent, Sent, Queued, Queued, Sending, Sent]"
    by (simp add: ex_defs)
  ultimately show ?thesis
    using ex_queue_keys ex_tick by simp
qed

section \<open>Claim C4: isolation of one message from the next\<close>

text \<open>
  C4, as stated, fails: only the provider call and the \<open>UPDATE\<close> to \<open>sent\<close> with its \<open>commit\<close>
  stand inside the \<open>try\<close>.  When the count query made for message 2 fails, the tick raises
  and the three rows selected after it are not visited; their messages stay \<open>Queued\<close>.
\<close>

theorem isolation_counterexample:
  "process_queue_tick ex_cfg5 ex_env_locked ex_queue
     = (Some ''database is locked'', [Visit 2], ex_queue)
   \<and> row_ids (select_queued (SEND_PER_SECOND ex_cfg5) ex_queue) = [2, 1, 3, 4]
   \<and> visits [Visit 2] = [2] \<and> 1 \<notin> set (visits [Visit 2])
   \<and> get_msg ex_queue 1 = Some (ex_msg 1 1 5 Queued)
   \<and> map m_status (messages ex_queue) = [Queued, Queued, Queued, Queued, Sending, Sent]"
  using ex_tick_locked ex_batch5
  by (simp add: row_ids_def visits_def get_msg_def ex_defs)

text \<open>
  C4, amended.  Every iteration commits what it writes before the next one begins.  When
  no statement outside the \<open>try\<close> fails (the selection, the two updates to \<open>skipped\<close>, the
  count, the updates to \<open>sending\<close> and to \<open>failed\<close>), the loop visits every selected row,
  whatever the provider answers and whether or not the \<open>UPDATE\<close> to \<open>sent\<close> or its \<open>commit\<close>
  fails.  An iteration that raises ends the tick with that exception and with the store
  as the iterations so far have left it, and the messages of the rows not visited are
  what they were before the tick.
\<close>

theorem provider_failures_are_isolated:
  assumes "process_queue_tick cfg env w = (x, tr, w')"
  shows "(storage_ok env \<longrightarrow> visits tr = row_ids (select_queued (SEND_PER_SECOND cfg) w))
     \<and> (\<forall>j. j \<notin> set (visits tr) \<longrightarrow> get_msg w' j = get_msg w j)
     \<and> (\<forall>rs1 r rs2 tr0 v e tr1 v1. db_fault env SelectQueued = None
           \<and> select_queued (SEND_PER_SECOND cfg) w = rs1 @ r # rs2
           \<and> dispatch cfg env rs1 w = (None, tr0, v)
           \<and> process_row cfg env r v = (Some e, tr1, v1) \<longrightarrow>
           x = Some e \<and> tr = tr0 @ tr1 \<and> w' = v1)"
proof -
  have p1: "storage_ok env \<longrightarrow> visits tr = row_ids (select_queued (SEND_PER_SECOND cfg) w)"
    using tick_visits_all [OF assms] by (rule impI)
  have p2: "\<forall>j. j \<notin> set (visits tr) \<longrightarrow> get_msg w' j = get_msg w j"
    using frame_get_msg [OF frame_tick_visits [OF assms]] by (intro allI impI)
  have p3: "\<forall>rs1 r rs2 tr0 v e tr1 v1. db_fault env SelectQueued = None
           \<and> select_queued (SEND_PER_SECOND cfg) w = rs1 @ r # rs2
           \<and> dispatch cfg env rs1 w = (None, tr0, v)
           \<and> process_row cfg env r v = (Some e, tr1, v1) \<longrightarrow>
           x = Some e \<and> tr = tr0 @ tr1 \<and> w' = v1"
  proof (intro allI impI)
    fix rs1 r rs2 tr0 v e tr1 v1
    assume "db_fault env SelectQueued = None
           \<and> select_queued (SEND_PER_SECOND cfg) w = rs1 @ r # rs2
           \<and> dispatch cfg env rs1 w = (None, tr0, v)
           \<and> process_row cfg env r v = (Some e, tr1, v1)"
    then have h: "db_fault env SelectQueued = None"
      "select_queued (SEND_PER_SECOND cfg) w = rs1 @ r # rs2"
      "dispatch cfg env rs1 w = (None, tr0, v)"
      "process_row cfg env r v = (Some e, tr1, v1)"
      by simp_all
    show "x = Some e \<and> tr = tr0 @ tr1 \<and> w' = v1"
      by (rule tick_aborts [OF assms h])
  qed
  show ?thesis
    by (rule conjI [OF p1 conjI [OF p2 p3]])
qed

theorem provider_failures_are_isolated_witness:
  "process_queue_tick ex_cfg5 ex_env2 ex_queue
     = (None, [Visit 2, Send 2 ''+'' ''Hi'', Visit 1, Send 1 ''+'' ''Hi'', Visit 3, Visit 4],
        ex_queue_after5)
   \<and> storage_ok ex_env2 \<and> send_sms ex_env2 2 ''+'' ''Hi'' = Inl ''boom''
   \<and> visits [Visit 2, Send 2 ''+'' ''Hi'', Visit 1, Send 1 ''+'' ''Hi'', Visit 3, Visit 4]
       = row_ids (select_queued (SEND_PER_SECOND ex_cfg5) ex_queue)
   \<and> row_ids (select_queued (SEND_PER_SECOND ex_cfg5) ex_queue) = [2, 1, 3, 4]
   \<and> 5 \<notin> set (visits [Visit 2, Send 2 ''+'' ''Hi'', Visit 1, Send 1 ''+'' ''Hi'', Visit 3, Visit 4])
   \<and> get_msg ex_queue_after5 5 = get_msg ex_queue 5"
proof -
  note inst = provider_failures_are_isolated [OF ex_tick5]
  have ok: "storage_ok ex_env2"
    by (simp add: storage_ok_def ex_defs)
  have v: "5 \<notin> set (visits [Visit 2, Send 2 ''+'' ''Hi'', Visit 1, Send 1 ''+'' ''Hi'', Visit 3, Visit 4])"
    by (simp add: visits_def)
  from inst [THEN conjunct1] ok
  have a: "visits [Visit 2, Send 2 ''+'' ''Hi'', Visit 1, Send 1 ''+'' ''Hi'', Visit 3, Visit 4]
       = row_ids (select_queued (SEND_PER_SECOND ex_cfg5) ex_queue)"
    by (rule mp)
  from inst [THEN conjunct2, THEN conjunct1, rule_format, OF v]
  have b: "get_msg ex_queue_after5 5 = get_msg ex_queue 5" .
  have c: "row_ids (select_queued (SEND_PER_SECOND ex_cfg5) ex_queue) = [2, 1, 3, 4]"
    "send_sms ex_env2 2 ''+'' ''Hi'' = Inl ''boom''"
    unfolding ex_batch5 by (simp_all add: row_ids_def ex_defs)
  show ?thesis
    by (intro conjI) (rule ex_tick5 ok a b c v)+
qed

section \<open>Claim C5: campaign completion\<close>



section \<open>Claim C6: the recipients of a campaign\<close>

lemma ex_recipients_wild: "recipients ex_store_wild ex_camp_wild = [ex_al]"
  by code_simp

lemma ex_recipients_any: "recipients ex_store ex_camp_any = [ex_al, ex_bo]"
  by code_simp

lemma ex_no_token:
  "\<not> exact_token_match ''v_p'' ''vip,gold''" "\<not> exact_token_match ''%'' ''gold''"
  "exact_token_match ''VIP'' ''vip,gold''" "\<not> exact_token_match ''vip'' ''gold''"
  by code_simp+

text \<open>
  C6.  The code selects by \<open>(',' || lower(tags) || ',') LIKE '%,tag,%'\<close> and does not
  escape the target tag, so a \<open>_\<close> or \<open>%\<close> in it is a wildcard.  A campaign with target tag
  \<open>v_p\<close> selects Al, whose tags are \<open>vip,gold\<close> and have no token \<open>v_p\<close>, and activating it
  queues a message for Al; a campaign with target tag \<open>%\<close> selects Al and Bo, whose tags
  \<open>gold\<close> have no token \<open>%\<close>.
\<close>

theorem wildcard_tag_selects_other_tags:
  "g_target_tag ex_camp_wild = ''v_p'' \<and> c_tags ex_al = ''vip,gold''
   \<and> c_consented ex_al = 1 \<and> c_opted_out ex_al = 0
   \<and> recipients ex_store_wild ex_camp_wild = [ex_al]
   \<and> \<not> exact_token_match (g_target_tag ex_camp_wild) (c_tags ex_al)
   \<and> get_campaign ex_store_wild 1 = Some ex_camp_wild
   \<and> fst (campaigns_start ex_cfg ex_env 1 ex_store_wild) = Inr 1
   \<and> map m_contact_id (messages (snd (campaigns_start ex_cfg ex_env 1 ex_store_wild))) = [1]
   \<and> g_target_tag ex_camp_any = ''%'' \<and> c_tags ex_bo = ''gold''
   \<and> recipients ex_store ex_camp_any = [ex_al, ex_bo]
   \<and> \<not> exact_token_match (g_target_tag ex_camp_any) (c_tags ex_bo)"
proof -
  have g: "get_campaign ex_store_wild 1 = Some ex_camp_wild"
    by (simp add: get_campaign_def ex_store_wild_def ex_camp_wild_def ex_store_def ex_camp_def)
  have s: "campaigns_start ex_cfg ex_env 1 ex_store_wild
      = (Inr 1, enqueue ex_cfg ex_env 1 ex_camp_wild ex_al
           (set_started 1 (read_clock ex_env (MarkStarted 1) ex_store_wild)))"
    by (simp add: campaigns_start_def sqlite_int_def g ex_recipients_wild Let_def)
  have m: "map m_contact_id (messages (snd (campaigns_start ex_cfg ex_env 1 ex_store_wild))) = [1]"
    unfolding s
    by (simp add: enqueue_def Let_def set_started_def read_clock_def ex_store_wild_def
        ex_store_def ex_al_def)
  have t: "g_target_tag ex_camp_wild = ''v_p''" "c_tags ex_al = ''vip,gold''"
    "c_consented ex_al = 1" "c_opted_out ex_al = 0"
    "g_target_tag ex_camp_any = ''%''" "c_tags ex_bo = ''gold''"
    by (simp_all add: ex_camp_wild_def ex_camp_any_def ex_al_def ex_bo_def)
  from g s m t ex_recipients_wild ex_recipients_any ex_no_token(1,2) show ?thesis
    by simp
qed

section \<open>Claim C7: activation of a campaign\<close>

text \<open>
  C7.  Activating a campaign id that the database cannot hold, one outside the 64-bit
  integers, is an id that does not exist, yet it raises \<open>OverflowError\<close>, not the 404
  exception: the \<open>SELECT\<close> that looks the campaign up fails to bind the id before the
  check for a missing campaign is reached.  Activating any other id that does not exist
  raises the 404 exception.  In both cases the store is left exactly as it was.
  Activating an existing campaign returns the number of recipients, leaves the contacts
  alone, sets the start time of that campaign to the current time whatever it was before,
  and appends one \<open>Queued\<close> message per selected recipient, in order, each with the
  recipient's id and phone, the rendered body and no provider id, error or sent time.
\<close>

theorem campaigns_start_outcomes:
  "(\<not> sqlite_int i \<longrightarrow>
      campaigns_start cfg env i w
        = (Inl (OverflowError ''Python int too large to convert to SQLite INTEGER''), w))
   \<and> (sqlite_int i \<and> get_campaign w i = None \<longrightarrow>
      campaigns_start cfg env i w = (Inl (HTTPException 404 ''Campaign not found''), w))
   \<and> (\<forall>camp. sqlite_int i \<and> get_campaign w i = Some camp \<longrightarrow>
        (\<exists>w' new. campaigns_start cfg env i w = (Inr (length (recipients w camp)), w')
           \<and> contacts w' = contacts w
           \<and> campaigns w' = map (\<lambda>g. if g_id g = i
                 then g\<lparr>g_started_at := Some (clock w + elapsed env (MarkStarted i))\<rparr> else g)
               (campaigns w)
           \<and> messages w' = messages w @ new
           \<and> list_all2 (queued_for cfg i camp) (recipients w camp) new))"
proof (intro conjI allI impI)
  assume "\<not> sqlite_int i"
  then show "campaigns_start cfg env i w
      = (Inl (OverflowError ''Python int too large to convert to SQLite INTEGER''), w)"
    by (simp add: campaigns_start_def)
next
  assume "sqlite_int i \<and> get_campaign w i = None"
  then show "campaigns_start cfg env i w = (Inl (HTTPException 404 ''Campaign not found''), w)"
    by (simp add: campaigns_start_def)
next
  fix camp
  assume c: "sqlite_int i \<and> get_campaign w i = Some camp"
  let ?w1 = "set_started i (read_clock env (MarkStarted i) w)"
  let ?w2 = "fold (enqueue cfg env i camp) (recipients w camp) ?w1"
  from fold_enqueue [of cfg env i camp "recipients w camp" ?w1] obtain new where
    new: "messages ?w2 = messages ?w1 @ new"
      "list_all2 (queued_for cfg i camp) (recipients w camp) new"
      "contacts ?w2 = contacts ?w1" "campaigns ?w2 = campaigns ?w1"
    by blast
  have "campaigns_start cfg env i w = (Inr (length (recipients w camp)), ?w2)"
    using c by (simp add: campaigns_start_def Let_def)
  moreover have "contacts ?w2 = contacts w"
    using new(3) by (simp add: set_started_def)
  moreover have "campaigns ?w2 = map (\<lambda>g. if g_id g = i
                 then g\<lparr>g_started_at := Some (clock w + elapsed env (MarkStarted i))\<rparr> else g)
               (campaigns w)"
    using new(4) by (simp add: set_started_def)
  moreover have "messages ?w2 = messages w @ new"
    using new(1) by (simp add: set_started_def)
  ultimately show "\<exists>w' new. campaigns_start cfg env i w = (Inr (length (recipients w camp)), w')
           \<and> contacts w' = contacts w
           \<and> campaigns w' = map (\<lambda>g. if g_id g = i
                 then g\<lparr>g_started_at := Some (clock w + elapsed env (MarkStarted i))\<rparr> else g)
               (campaigns w)
           \<and> messages w' = messages w @ new
           \<and> list_all2 (queued_for cfg i camp) (recipients w camp) new"
    using new(2) by blast
qed

theorem campaigns_start_outcomes_witness:
  "\<not> sqlite_int 9223372036854775808
   \<and> get_campaign ex_store 9223372036854775808 = None
   \<and> campaigns_start ex_cfg ex_env 9223372036854775808 ex_store
       = (Inl (OverflowError ''Python int too large to convert to SQLite INTEGER''), ex_store)
   \<and> sqlite_int 7 \<and> get_campaign ex_store 7 = None
   \<and> campaigns_start ex_cfg ex_env 7 ex_store
       = (Inl (HTTPException 404 ''Campaign not found''), ex_store)
   \<and> sqlite_int 1 \<and> get_campaign ex_store 1 = Some ex_camp
   \<and> fst (campaigns_start ex_cfg ex_env 1 ex_store) = Inr 1
   \<and> map g_started_at (campaigns (snd (campaigns_start ex_cfg ex_env 1 ex_store))) = [Some 11]
   \<and> map m_status (messages (snd (campaigns_start ex_cfg ex_env 1 ex_store))) = [Queued]
   \<and> map m_contact_id (messages (snd (campaigns_start ex_cfg ex_env 1 ex_store))) = [1]"
proof -
  have big: "\<not> sqlite_int 9223372036854775808"
    by (simp add: sqlite_int_def)
  have absent: "get_campaign ex_store 9223372036854775808 = None"
    by (simp add: get_campaign_def ex_store_def ex_camp_def)
  have a: "sqlite_int 7 \<and> get_campaign ex_store 7 = None"
    by (simp add: sqlite_int_def get_campaign_def ex_store_def ex_camp_def)
  have b: "sqlite_int 1 \<and> get_campaign ex_store 1 = Some ex_camp"
    by (simp add: sqlite_int_def get_campaign_def ex_store_def ex_camp_def)
  note inst = campaigns_start_outcomes [of _ ex_cfg ex_env ex_store]
  from inst [of 9223372036854775808, THEN conjunct1, rule_format, OF big]
  have ov: "campaigns_start ex_cfg ex_env 9223372036854775808 ex_store
       = (Inl (OverflowError ''Python int too large to convert to SQLite INTEGER''), ex_store)" .
  from inst [of 7, THEN conjunct2, THEN conjunct1, rule_format, OF a]
  have nf: "campaigns_start ex_cfg ex_env 7 ex_store
       = (Inl (HTTPException 404 ''Campaign not found''), ex_store)" .
  from inst [of 1, THEN conjunct2, THEN conjunct2, rule_format, OF b]
  obtain w' new where w': "campaigns_start ex_cfg ex_env 1 ex_store = (Inr (length [ex_al]), w')"
    "campaigns w' = map (\<lambda>g. if g_id g = 1
         then g\<lparr>g_started_at := Some (clock ex_store + elapsed ex_env (MarkStarted 1))\<rparr> else g)
       (campaigns ex_store)"
    "messages w' = messages ex_store @ new"
    "list_all2 (queued_for ex_cfg 1 ex_camp) [ex_al] new"
    unfolding ex_recipients by blast
  from w'(4) obtain m where m: "new = [m]" "queued_for ex_cfg 1 ex_camp ex_al m"
    by (auto simp: list_all2_Cons1)
  have "map g_started_at (campaigns w') = [Some 11]"
    using w'(2) by (simp add: ex_store_def ex_camp_def ex_env_def)
  moreover have "map m_status (messages w') = [Queued]" "map m_contact_id (messages w') = [1]"
    using w'(3) m by (simp_all add: ex_store_def queued_for_def ex_al_def)
  ultimately show ?thesis
    using big absent ov a b nf w'(1) by simp
qed

section \<open>Claim C8: recording the provider's outcome\<close>



section \<open>Claim C9: terminal exclusivity\<close>

text \<open>
  C9.  In a store whose primary keys hold, a message whose status is \<open>Sent\<close>, \<open>Failed\<close> or
  \<open>Skipped\<close> is the same record, in every field, after any sequence of operations: ticks
  (with their completion scans) under any environment, activations and the other
  handlers.
\<close>

theorem terminal_exclusivity:
  assumes "primary_keys w" and "get_msg w i = Some m"
    and "m_status m = Sent \<or> m_status m = Failed \<or> m_status m = Skipped"
  shows "get_msg (run cfg ops w) i = Some m"
proof -
  have "m_status m \<noteq> Queued"
    using assms(3) by auto
  with run_keeps_unqueued [OF assms(1,2)] show ?thesis
    by blast
qed

theorem terminal_exclusivity_witness:
  "primary_keys ex_queue
   \<and> get_msg ex_queue 6 = Some ((ex_msg 6 3 2 Sent)\<lparr>m_provider_id := Some ''at0'', m_sent_at := Some 8\<rparr>)
   \<and> m_status ((ex_msg 6 3 2 Sent)\<lparr>m_provider_id := Some ''at0'', m_sent_at := Some 8\<rparr>) = Sent
   \<and> get_msg (run ex_cfg5 [Tick ex_env2, Start ex_env 1, Tick ex_env] ex_queue) 6
       = Some ((ex_msg 6 3 2 Sent)\<lparr>m_provider_id := Some ''at0'', m_sent_at := Some 8\<rparr>)"
proof -
  let ?m = "(ex_msg 6 3 2 Sent)\<lparr>m_provider_id := Some ''at0'', m_sent_at := Some 8\<rparr>"
  have g: "get_msg ex_queue 6 = Some ?m"
    by (simp add: get_msg_def ex_defs)
  have s: "m_status ?m = Sent \<or> m_status ?m = Failed \<or> m_status ?m = Skipped"
    by (simp add: ex_defs)
  from terminal_exclusivity [OF ex_queue_keys g s] g s ex_queue_keys show ?thesis
    by (simp add: ex_msg_def)
qed

section \<open>Claim C10: a message left in \<open>Sending\<close>\<close>

text \<open>
  C10.  In a store whose primary keys hold, a message whose status is \<open>Sending\<close> is in no
  batch that a tick selects, now or after any sequence of operations, and it is the
  same record after any such sequence and after \<open>startup\<close>: nothing resets it.
\<close>

theorem sending_is_never_resolved:
  assumes "primary_keys w" and "get_msg w i = Some m" and "m_status m = Sending"
  shows "get_msg (run cfg ops w) i = Some m
     \<and> get_msg (startup (run cfg ops w)) i = Some m
     \<and> (\<forall>n. i \<notin> set (row_ids (select_queued n (run cfg ops w))))"
proof -
  let ?w = "run cfg ops w"
  have nq: "m_status m \<noteq> Queued"
    using assms(3) by simp
  from run_keeps_unqueued [OF assms(1,2) nq]
  have k: "primary_keys ?w" and g: "get_msg ?w i = Some m"
    by blast+
  have "i \<notin> set (row_ids (select_queued n ?w))" for n
  proof
    assume "i \<in> set (row_ids (select_queued n ?w))"
    then obtain r where r: "r \<in> set (select_queued n ?w)" "m_id (r_msg r) = i"
      by (auto simp: row_ids_def)
    from select_queued_get_msg [OF k r(1)] r(2) g have "r_msg r = m" by simp
    with select_queued_row(2) [OF r(1)] nq show False by simp
  qed
  with g show ?thesis
    by (simp add: startup_def)
qed

theorem sending_is_never_resolved_witness:
  "primary_keys ex_queue
   \<and> get_msg ex_queue 5 = Some (ex_msg 5 2 1 Sending)
   \<and> m_status (ex_msg 5 2 1 Sending) = Sending
   \<and> get_msg (run ex_cfg5 [Startup, Tick ex_env2, Tick ex_env] ex_queue) 5
       = Some (ex_msg 5 2 1 Sending)
   \<and> 5 \<notin> set (row_ids (select_queued 5 (run ex_cfg5 [Startup, Tick ex_env2, Tick ex_env] ex_queue)))"
proof -
  have g: "get_msg ex_queue 5 = Some (ex_msg 5 2 1 Sending)"
    by (simp add: get_msg_def ex_defs)
  have s: "m_status (ex_msg 5 2 1 Sending) = Sending"
    by (simp add: ex_defs)
  from sending_is_never_resolved [OF ex_queue_keys g s] g s ex_queue_keys show ?thesis
    by blast
qed

end
